theory Spec2Isabelle
  imports Main "HOL-Library.Word" "HOL-Library.Multiset"
begin

section \<open>The external sort of \<^verbatim>\<open>extsort.c\<close>\<close>

text \<open>
  \<^verbatim>\<open>extsort.c\<close> sorts fixed-size records that do not fit in memory. Records are pushed
  into a buffer; when the buffer's memory estimate would pass the budget, the buffer is
  sorted and written to a temporary file (a block, the specification's Run); after the
  last push, \<^verbatim>\<open>extsort_sort\<close> opens a heap over the blocks and \<^verbatim>\<open>extsort_shift\<close> returns
  the records one at a time, smallest first.

  The embedding follows the C text function by function. State is passed explicitly, the
  calls of \<^verbatim>\<open>error()\<close> (which prints and exits), the assertions and the uses of a null
  pointer are results of the sum type \<open>error + 'a\<close>.
\<close>

subsection \<open>Data\<close>

text \<open>
  A record is the \<^verbatim>\<open>dat_size\<close> bytes behind a \<^verbatim>\<open>void *\<close>; the model passes the bytes.
  \<^verbatim>\<open>size_t\<close> is 64 bits wide and \<^verbatim>\<open>int\<close> 32 bits (LP64); \<^verbatim>\<open>sizeof(void *)\<close> is 8.
  The comparator \<^verbatim>\<open>extsort_cmp_f\<close> receives the addresses of two record pointers and
  returns a C \<^verbatim>\<open>int\<close> of which the code only tests the sign; the model applies it to the
  two records and returns the integer.
\<close>

type_synonym byte = "8 word"
type_synonym bytes = "byte list"
type_synonym size_t = "64 word"
type_synonym extsort_cmp_f = "bytes \<Rightarrow> bytes \<Rightarrow> int"

text \<open>
  The ways an operation ends without returning: \<open>Fatal\<close> is a call of \<^verbatim>\<open>error()\<close>,
  \<open>Assertion_failed\<close> a failed \<^verbatim>\<open>assert\<close>, \<open>Undefined_behaviour\<close> the use of a null pointer
  (a call through a null comparator, \<^verbatim>\<open>strdup(NULL)\<close>, \<^verbatim>\<open>es->bhp->ndat\<close> before the
  heap exists, a dangling block pointer, a store into the freed array \<^verbatim>\<open>es->buf\<close>) or a
  read past the end of a caller's record.
\<close>

datatype error = Fatal | Assertion_failed | Undefined_behaviour

text \<open>
  The temporary file behind a descriptor: its bytes and the file offset. The storage is
  reliable: \<^verbatim>\<open>mkstemp\<close>, \<^verbatim>\<open>fchmod\<close>, \<^verbatim>\<open>unlink\<close>, \<^verbatim>\<open>lseek\<close> and \<^verbatim>\<open>close\<close> succeed,
  \<^verbatim>\<open>write\<close> transfers every byte it is given, and \<^verbatim>\<open>read\<close> returns the bytes that remain,
  at most the number asked for. Each system call returns what the C call returns, so
  that the checks of the code on these values are branches of the model.
\<close>

record file_t =
  content :: bytes
  offset :: nat

definition sys_mkstemp :: file_t where
  "sys_mkstemp = \<lparr>content = [], offset = 0\<rparr>"

definition sys_write :: "file_t \<Rightarrow> bytes \<Rightarrow> nat \<times> file_t" where
  "sys_write f d =
     (length d,
      f\<lparr>content := take (offset f) (content f) @ d @ drop (offset f + length d) (content f),
        offset := offset f + length d\<rparr>)"

definition sys_read :: "file_t \<Rightarrow> nat \<Rightarrow> bytes \<times> file_t" where
  "sys_read f n =
     (let d = take n (drop (offset f) (content f))
      in (d, f\<lparr>offset := offset f + length d\<rparr>))"

definition sys_lseek_set :: "file_t \<Rightarrow> nat \<Rightarrow> nat \<times> file_t" where
  "sys_lseek_set f pos = (pos, f\<lparr>offset := pos\<rparr>)"

text \<open>
  \<^verbatim>\<open>blk_t\<close>. The field \<open>fd\<close> is the open temporary file, or \<open>None\<close> where the C field
  is \<^verbatim>\<open>-1\<close>; every block owns its descriptor alone. \<open>dat\<close> is the buffer \<^verbatim>\<open>blk->dat\<close>
  with the record read last. The back pointer \<^verbatim>\<open>blk->es\<close> only serves to reach the
  comparator and is replaced by passing the comparator.
\<close>

record blk_t =
  fd :: "file_t option"
  fname :: string
  dat :: bytes

text \<open>
  \<^verbatim>\<open>struct _extsort_t\<close>. The arrays \<^verbatim>\<open>buf\<close> and \<^verbatim>\<open>blk\<close> are lists, their counters
  \<^verbatim>\<open>nbuf\<close> and \<^verbatim>\<open>nblk\<close> the lengths of the lists. The list \<open>buf\<close> holds the \<^verbatim>\<open>nbuf\<close>
  entries of \<^verbatim>\<open>es->buf\<close> in use, \<open>mbuf\<close> is the capacity the array was allocated with
  last, and \<open>buf_null\<close> tells that the pointer \<^verbatim>\<open>es->buf\<close> is null, as it is after
  \<^verbatim>\<open>calloc\<close> and again after \<^verbatim>\<open>extsort_sort\<close>, which frees the array and keeps \<^verbatim>\<open>mbuf\<close>.
  A null \<^verbatim>\<open>tmp_prefix\<close>, \<^verbatim>\<open>cmp\<close> or \<^verbatim>\<open>bhp\<close> is \<open>None\<close>. The heap \<open>bhp\<close> holds
  pointers to blocks of \<^verbatim>\<open>es->blk\<close>; the model holds their indices, so that a comparison
  of two heap entries reads the heads the blocks have at that moment, as the C code does
  through the pointers. The scratch buffer \<^verbatim>\<open>tmp_dat\<close> and the buffers \<^verbatim>\<open>blk->dat\<close> are
  separate allocations that \<^verbatim>\<open>extsort_shift\<close> exchanges by pointer; the model exchanges
  their contents. A buffer fresh from \<^verbatim>\<open>malloc\<close> is modelled as filled with zeros, and the
  null \<^verbatim>\<open>tmp_dat\<close> of a session that was not initialised as the empty buffer.
\<close>

record extsort_t =
  dat_size :: size_t
  mem :: size_t
  max_mem :: size_t
  tmp_prefix :: "string option"
  cmp :: "extsort_cmp_f option"
  mbuf :: nat
  buf_null :: bool
  buf :: "bytes list"
  blk :: "blk_t list"
  tmp_dat :: bytes
  bhp :: "nat list option"

text \<open>
  The keys of \<^verbatim>\<open>extsort_set\<close>, each with the value the \<^verbatim>\<open>void *\<close> argument points to;
  the prefix and the comparator are pointers and may be null.
\<close>

datatype extsort_opt_t =
  DAT_SIZE size_t | MAX_MEM string | TMP_PREFIX "string option" | FUNC_CMP "extsort_cmp_f option"

subsection \<open>The heap of \<^verbatim>\<open>kheap.h\<close>\<close>

text \<open>
  Modelled from the spec: \<^verbatim>\<open>kheap.h\<close>, whose macro \<^verbatim>\<open>KHEAP_INIT\<close> generates the type
  \<^verbatim>\<open>khp_blk_t\<close> and the functions \<^verbatim>\<open>khp_init\<close>, \<^verbatim>\<open>khp_insert\<close> and \<^verbatim>\<open>khp_delete\<close>, is not
  among the sources. The specification calls it a binary min-heap ordered by the comparator
  applied to each Run's head, from which a pull takes the minimum and into which the Run is
  inserted again. It is modelled as the array-embedded binary heap: the entries are a
  list, entry 0 is the minimum (\<^verbatim>\<open>es->bhp->dat[0]\<close>), and \<^verbatim>\<open>ndat\<close> is the length of the list.
  The parent of \<open>i\<close> is \<open>(i - 1) div 2\<close>.
\<close>

definition khp_parent :: "nat \<Rightarrow> nat" where
  "khp_parent i = (i - 1) div 2"

text \<open>Modelled from the spec: the left child of an entry of the binary heap of \<^verbatim>\<open>kheap.h\<close>.\<close>

definition khp_lchild :: "nat \<Rightarrow> nat" where
  "khp_lchild i = 2 * i + 1"

text \<open>Modelled from the spec: the right child of an entry of the binary heap of \<^verbatim>\<open>kheap.h\<close>.\<close>

definition khp_rchild :: "nat \<Rightarrow> nat" where
  "khp_rchild i = 2 * i + 2"

text \<open>Modelled from the spec: the exchange of two entries of the binary heap of \<^verbatim>\<open>kheap.h\<close>.\<close>

definition khp_swap :: "'a list \<Rightarrow> nat \<Rightarrow> nat \<Rightarrow> 'a list" where
  "khp_swap h i j = h[i := h ! j, j := h ! i]"

text \<open>
  Modelled from the spec: the upward pass of an insertion into the binary heap of
  \<^verbatim>\<open>kheap.h\<close>. The entry at \<open>i\<close> rises while it is smaller than its parent.
\<close>

function khp_up :: "('a \<Rightarrow> 'a \<Rightarrow> bool) \<Rightarrow> 'a list \<Rightarrow> nat \<Rightarrow> 'a list" where
  "khp_up lt h i =
     (if 0 < i \<and> lt (h ! i) (h ! khp_parent i)
      then khp_up lt (khp_swap h i (khp_parent i)) (khp_parent i)
      else h)"
  by pat_completeness auto
termination
  by (relation "measure (\<lambda>(lt, h, i). i)") (auto simp: khp_parent_def)

declare khp_up.simps [simp del]

text \<open>
  Modelled from the spec: \<^verbatim>\<open>khp_insert\<close> of \<^verbatim>\<open>kheap.h\<close>, the insertion into the binary
  min-heap. The new entry is appended and rises to its place.
\<close>

definition khp_insert :: "('a \<Rightarrow> 'a \<Rightarrow> bool) \<Rightarrow> 'a list \<Rightarrow> 'a \<Rightarrow> 'a list" where
  "khp_insert lt h x = khp_up lt (h @ [x]) (length h)"

text \<open>
  Modelled from the spec: the smallest of an entry of the binary heap of \<^verbatim>\<open>kheap.h\<close> and
  its children that exist: the left child if it is smaller than the entry, then the right
  child if it is smaller than that.
\<close>

definition khp_extreme :: "('a \<Rightarrow> 'a \<Rightarrow> bool) \<Rightarrow> 'a list \<Rightarrow> nat \<Rightarrow> nat" where
  "khp_extreme lt h i =
     (let e = (if khp_lchild i < length h \<and> lt (h ! khp_lchild i) (h ! i)
               then khp_lchild i else i)
      in if khp_rchild i < length h \<and> lt (h ! khp_rchild i) (h ! e)
         then khp_rchild i else e)"

text \<open>
  Modelled from the spec: the downward pass of a deletion from the binary heap of
  \<^verbatim>\<open>kheap.h\<close>. The entry at \<open>i\<close> sinks below its smallest child until no child is smaller.
\<close>

function khp_heapify :: "('a \<Rightarrow> 'a \<Rightarrow> bool) \<Rightarrow> 'a list \<Rightarrow> nat \<Rightarrow> 'a list" where
  "khp_heapify lt h i =
     (if khp_extreme lt h i \<noteq> i
      then khp_heapify lt (khp_swap h i (khp_extreme lt h i)) (khp_extreme lt h i)
      else h)"
  by pat_completeness auto
termination
proof (relation "measure (\<lambda>(lt, h, i). length h - i)", goal_cases)
  case 1
  show ?case by simp
next
  case (2 lt h i)
  then have "i < khp_extreme lt h i \<and> khp_extreme lt h i < length h"
    by (auto simp: khp_extreme_def Let_def khp_lchild_def khp_rchild_def split: if_splits)
  then show ?case by (simp add: khp_swap_def) linarith
qed

declare khp_heapify.simps [simp del]

text \<open>
  Modelled from the spec: \<^verbatim>\<open>khp_delete\<close> of \<^verbatim>\<open>kheap.h\<close>, the removal of the minimum of
  the binary min-heap. The last entry takes the place of entry 0 and sinks to its place;
  the removed entry is not compared.
\<close>

definition khp_delete :: "('a \<Rightarrow> 'a \<Rightarrow> bool) \<Rightarrow> 'a list \<Rightarrow> 'a list" where
  "khp_delete lt h =
     (if h = [] then h else khp_heapify lt ((butlast h)[0 := last h]) 0)"

subsection \<open>The operations of \<^verbatim>\<open>extsort.c\<close>\<close>

text \<open>
  \<^verbatim>\<open>blk_is_smaller\<close>: \<^verbatim>\<open>ret = a->es->cmp(&a->dat,&b->dat); if ( ret < 0 ) return 1; return 0;\<close>
  The two blocks are entries of the heap, given by their indices in \<open>bs\<close>.
\<close>

definition blk_is_smaller :: "extsort_cmp_f \<Rightarrow> blk_t list \<Rightarrow> nat \<Rightarrow> nat \<Rightarrow> bool" where
  "blk_is_smaller c bs a b = (c (dat (bs ! a)) (dat (bs ! b)) < 0)"

text \<open>
  \<^verbatim>\<open>_init_tmp_prefix\<close> (the branch that is not Windows): the given prefix followed by
  \<^verbatim>\<open>XXXXXX\<close>, or \<^verbatim>\<open>/tmp/bcftools-sort.XXXXXX\<close> when the prefix is null.
\<close>

definition init_tmp_prefix :: "extsort_t \<Rightarrow> string option \<Rightarrow> extsort_t" where
  "init_tmp_prefix es tmp_prefix' =
     (case tmp_prefix' of
        Some p \<Rightarrow> es\<lparr>tmp_prefix := Some (p @ ''XXXXXX'')\<rparr>
      | None \<Rightarrow> es\<lparr>tmp_prefix := Some ''/tmp/bcftools-sort.XXXXXX''\<rparr>)"

text \<open>
  \<^verbatim>\<open>extsort_set\<close>. \<^verbatim>\<open>parse_mem_string\<close> is declared in \<^verbatim>\<open>extsort.c\<close> and defined
  elsewhere; it is a parameter. \<^verbatim>\<open>es->max_mem <= 0\<close> compares a \<^verbatim>\<open>size_t\<close>, so it tests
  for zero.
\<close>

definition extsort_set :: "(string \<Rightarrow> size_t) \<Rightarrow> extsort_t \<Rightarrow> extsort_opt_t \<Rightarrow> error + extsort_t" where
  "extsort_set parse_mem_string es key =
     (case key of
        DAT_SIZE v \<Rightarrow> Inr (es\<lparr>dat_size := v\<rparr>)
      | MAX_MEM s \<Rightarrow>
          (if parse_mem_string s \<le> 0 then Inl Fatal
           else Inr (es\<lparr>max_mem := parse_mem_string s\<rparr>))
      | TMP_PREFIX p \<Rightarrow> Inr (init_tmp_prefix es p)
      | FUNC_CMP c \<Rightarrow> Inr (es\<lparr>cmp := c\<rparr>))"

text \<open>\<^verbatim>\<open>extsort_alloc\<close>: \<^verbatim>\<open>calloc\<close> zeroes every field, then \<^verbatim>\<open>es->max_mem = 100e6\<close>.\<close>

definition extsort_alloc :: extsort_t where
  "extsort_alloc =
     \<lparr>dat_size = 0, mem = 0, max_mem = 100000000, tmp_prefix = None, cmp = None,
      mbuf = 0, buf_null = True, buf = [], blk = [], tmp_dat = [], bhp = None\<rparr>"

text \<open>
  \<^verbatim>\<open>extsort_init\<close>: \<^verbatim>\<open>assert( es->cmp ); assert( es->dat_size );\<close>, the default prefix,
  and \<^verbatim>\<open>es->tmp_dat = malloc(es->dat_size)\<close>.
\<close>

definition extsort_init :: "extsort_t \<Rightarrow> error + extsort_t" where
  "extsort_init es =
     (if cmp es = None then Inl Assertion_failed
      else if dat_size es = 0 then Inl Assertion_failed
      else Inr ((if tmp_prefix es = None then init_tmp_prefix es None else es)
                  \<lparr>tmp_dat := replicate (unat (dat_size es)) 0\<rparr>))"

text \<open>
  \<^verbatim>\<open>qsort\<close> of the C library, called as \<^verbatim>\<open>qsort(es->buf, es->nbuf, sizeof(void *), es->cmp)\<close>.
  The C standard fixes neither the algorithm nor the order of records that compare equal;
  the model sorts by insertion.
\<close>

fun qsort_insert :: "extsort_cmp_f \<Rightarrow> bytes \<Rightarrow> bytes list \<Rightarrow> bytes list" where
  "qsort_insert c x [] = [x]"
| "qsort_insert c x (y # ys) = (if c x y \<le> 0 then x # y # ys else y # qsort_insert c x ys)"

fun qsort :: "extsort_cmp_f \<Rightarrow> bytes list \<Rightarrow> bytes list" where
  "qsort c [] = []"
| "qsort c (x # xs) = qsort_insert c x (qsort c xs)"

text \<open>
  The loop of \<^verbatim>\<open>_buf_flush\<close> that writes the buffer:
  \<^verbatim>\<open>if ( write(blk->fd, es->buf[i], es->dat_size)!=es->dat_size ) error(...)\<close>.
  A record given with fewer than \<^verbatim>\<open>dat_size\<close> bytes would be read past its end.
\<close>

fun buf_write :: "nat \<Rightarrow> file_t \<Rightarrow> bytes list \<Rightarrow> error + file_t" where
  "buf_write n f [] = Inr f"
| "buf_write n f (d # ds) =
     (if length d < n then Inl Undefined_behaviour
      else case sys_write f (take n d) of
             (k, f') \<Rightarrow> (if k \<noteq> n then Inl Fatal else buf_write n f' ds))"

text \<open>
  \<^verbatim>\<open>_buf_flush\<close> (named without the underscore): nothing for an empty buffer; otherwise
  \<^verbatim>\<open>qsort\<close>, a new block with a buffer of \<^verbatim>\<open>dat_size\<close> bytes and the name
  \<^verbatim>\<open>strdup(es->tmp_prefix)\<close>, a temporary file from \<^verbatim>\<open>mkstemp\<close>, the records written in
  order, \<^verbatim>\<open>lseek\<close> to the start, then \<^verbatim>\<open>nbuf = 0\<close> and \<^verbatim>\<open>mem = 0\<close>. The name that
  \<^verbatim>\<open>mkstemp\<close> fills in is only used in messages and stays the template.
\<close>

definition buf_flush :: "extsort_t \<Rightarrow> error + extsort_t" where
  "buf_flush es =
     (if buf es = [] then Inr es
      else case cmp es of
        None \<Rightarrow> Inl Undefined_behaviour
      | Some c \<Rightarrow>
          (case tmp_prefix es of
             None \<Rightarrow> Inl Undefined_behaviour
           | Some p \<Rightarrow>
               (case buf_write (unat (dat_size es)) sys_mkstemp (qsort c (buf es)) of
                  Inl e \<Rightarrow> Inl e
                | Inr f \<Rightarrow>
                    (case sys_lseek_set f 0 of
                       (pos, f') \<Rightarrow>
                         (if pos \<noteq> 0 then Inl Fatal
                          else Inr (es\<lparr>blk := blk es @
                                           [\<lparr>fd = Some f', fname = p,
                                             dat = replicate (unat (dat_size es)) 0\<rparr>],
                                         buf := [], mem := 0\<rparr>))))))"

text \<open>
  \<^verbatim>\<open>int delta = sizeof(void *) + es->dat_size;\<close> The sum of type \<^verbatim>\<open>size_t\<close> is cut to
  the 32 bits of an \<^verbatim>\<open>int\<close>, and the \<^verbatim>\<open>int\<close> is widened with its sign where it is added
  to \<^verbatim>\<open>es->mem\<close>.
\<close>

definition push_delta :: "size_t \<Rightarrow> size_t" where
  "push_delta n = scast (ucast (8 + n) :: 32 word)"

text \<open>
  \<^verbatim>\<open>hts_expand(void*, n, es->mbuf, es->buf)\<close> of htslib: when \<open>n\<close> is greater than the
  capacity, the capacity becomes \<open>n\<close> rounded up to a power of two (\<^verbatim>\<open>kroundup\<close>) and the
  array is reallocated, which allocates it when the pointer is null; otherwise nothing is
  done, also when the pointer is null. The allocation is taken to succeed.
\<close>

fun kroundup :: "nat \<Rightarrow> nat" where
  "kroundup n = (if n \<le> 1 then n else 2 * kroundup ((n + 1) div 2))"

declare kroundup.simps [simp del]

definition hts_expand :: "nat \<Rightarrow> extsort_t \<Rightarrow> extsort_t" where
  "hts_expand n es = (if mbuf es < n then es\<lparr>mbuf := kroundup n, buf_null := False\<rparr> else es)"

text \<open>
  \<^verbatim>\<open>extsort_push\<close>:
  \<^verbatim>\<open>if ( es->nbuf && es->mem + delta > es->max_mem ) _buf_flush(es);\<close>
  then \<^verbatim>\<open>es->nbuf++; es->mem += delta; hts_expand(void*, es->nbuf, es->mbuf, es->buf);\<close>
  and \<^verbatim>\<open>es->buf[es->nbuf-1] = dat;\<close> which stores through a null pointer when the array
  was freed by \<^verbatim>\<open>extsort_sort\<close> and the capacity kept from before is not exceeded.
\<close>

definition extsort_push :: "extsort_t \<Rightarrow> bytes \<Rightarrow> error + extsort_t" where
  "extsort_push es d =
     (case (if buf es \<noteq> [] \<and> max_mem es < mem es + push_delta (dat_size es)
            then buf_flush es else Inr es) of
        Inl e \<Rightarrow> Inl e
      | Inr es' \<Rightarrow>
          (let es1 = hts_expand (length (buf es') + 1)
                       (es'\<lparr>mem := mem es' + push_delta (dat_size es)\<rparr>)
           in if buf_null es1 then Inl Undefined_behaviour
              else Inr (es1\<lparr>buf := buf es' @ [d]\<rparr>)))"

text \<open>
  \<^verbatim>\<open>_blk_read\<close> (named without the underscore): 0 for a closed block; otherwise
  \<^verbatim>\<open>ret = read(blk->fd, blk->dat, es->dat_size)\<close>; for \<^verbatim>\<open>ret == 0\<close> the file is closed
  and \<^verbatim>\<open>blk->fd = -1\<close>; \<^verbatim>\<open>ret < es->dat_size\<close> is an error; otherwise \<^verbatim>\<open>ret\<close> is
  returned. The bytes read replace the start of \<^verbatim>\<open>blk->dat\<close>. The reliable \<^verbatim>\<open>read\<close> never
  returns a negative number, so the branch \<^verbatim>\<open>ret < 0\<close> is not taken.
\<close>

definition blk_read :: "size_t \<Rightarrow> blk_t \<Rightarrow> error + size_t \<times> blk_t" where
  "blk_read n b =
     (case fd b of
        None \<Rightarrow> Inr (0, b)
      | Some f \<Rightarrow>
          (case sys_read f (unat n) of
             (d, f') \<Rightarrow>
               (if length d = 0 then Inr (0, b\<lparr>fd := None\<rparr>)
                else if length d < unat n then Inl Fatal
                else Inr (of_nat (length d),
                          b\<lparr>fd := Some f', dat := d @ drop (length d) (dat b)\<rparr>))))"

text \<open>
  The loop of \<^verbatim>\<open>extsort_sort\<close> over the blocks \<open>i # idx\<close> still to open: \<^verbatim>\<open>lseek\<close> to the
  start (which fails on a closed descriptor), one \<^verbatim>\<open>_blk_read\<close>, and
  \<^verbatim>\<open>int ret = _blk_read(es, blk); if ( ret ) khp_insert(blk, es->bhp, &blk);\<close>
  where the count returned is cut to the 32 bits of \<^verbatim>\<open>ret\<close>.
\<close>

fun sort_loop :: "extsort_t \<Rightarrow> nat list \<Rightarrow> error + extsort_t" where
  "sort_loop es [] = Inr es"
| "sort_loop es (i # idx) =
     (case fd (blk es ! i) of
        None \<Rightarrow> Inl Fatal
      | Some f \<Rightarrow>
          (case sys_lseek_set f 0 of
             (pos, f') \<Rightarrow>
               (if pos \<noteq> 0 then Inl Fatal
                else (case blk_read (dat_size es) ((blk es ! i)\<lparr>fd := Some f'\<rparr>) of
                 Inl e \<Rightarrow> Inl e
               | Inr (ret, b) \<Rightarrow>
                   (if (ucast ret :: 32 word) \<noteq> 0
                    then (case (cmp es, bhp es) of
                           (Some c, Some h) \<Rightarrow>
                             sort_loop (es\<lparr>blk := (blk es)[i := b],
                                           bhp := Some (khp_insert (blk_is_smaller c ((blk es)[i := b])) h i)\<rparr>) idx
                         | _ \<Rightarrow> Inl Undefined_behaviour)
                    else sort_loop (es\<lparr>blk := (blk es)[i := b]\<rparr>) idx)))))"

text \<open>
  \<^verbatim>\<open>extsort_sort\<close>: \<^verbatim>\<open>_buf_flush(es); free(es->buf); es->buf = NULL; es->bhp = khp_init(blk);\<close>
  and the loop over all blocks.
\<close>

definition extsort_sort :: "extsort_t \<Rightarrow> error + extsort_t" where
  "extsort_sort es =
     (case buf_flush es of
        Inl e \<Rightarrow> Inl e
      | Inr es' \<Rightarrow>
          sort_loop (es'\<lparr>buf_null := True, buf := [], bhp := Some []\<rparr>) [0..<length (blk es')])"

text \<open>
  \<^verbatim>\<open>extsort_shift\<close>: \<open>None\<close> (the null pointer) when the heap is empty. Otherwise the
  block at \<^verbatim>\<open>es->bhp->dat[0]\<close> exchanges its buffer with \<^verbatim>\<open>es->tmp_dat\<close>, is deleted from
  the heap, reads its next record and, if \<^verbatim>\<open>int ret\<close> is not zero, is inserted again;
  the result is \<^verbatim>\<open>es->tmp_dat\<close>, the head the block had. The deletion already compares
  with the exchanged buffers in place, as in the C code.
\<close>

definition extsort_shift :: "extsort_t \<Rightarrow> error + bytes option \<times> extsort_t" where
  "extsort_shift es =
     (case bhp es of
        None \<Rightarrow> Inl Undefined_behaviour
      | Some h \<Rightarrow>
          if h = [] then Inr (None, es)
          else if length (blk es) \<le> h ! 0 then Inl Undefined_behaviour
          else (case cmp es of
            None \<Rightarrow> Inl Undefined_behaviour
          | Some c \<Rightarrow>
              (let i = h ! 0;
                   bs = (blk es)[i := (blk es ! i)\<lparr>dat := tmp_dat es\<rparr>];
                   tmp = dat (blk es ! i);
                   h' = khp_delete (blk_is_smaller c bs) h
               in case blk_read (dat_size es) (bs ! i) of
                    Inl e \<Rightarrow> Inl e
                  | Inr (ret, b) \<Rightarrow>
                      Inr (Some tmp,
                           es\<lparr>tmp_dat := tmp, blk := bs[i := b],
                              bhp := Some (if (ucast ret :: 32 word) \<noteq> 0
                                           then khp_insert (blk_is_smaller c (bs[i := b])) h' i
                                           else h')\<rparr>))))"

subsection \<open>The caller's protocol\<close>

text \<open>
  A caller configures a session with a sequence of \<^verbatim>\<open>extsort_set\<close> calls between
  \<^verbatim>\<open>extsort_alloc\<close> and \<^verbatim>\<open>extsort_init\<close>, pushes its records, calls \<^verbatim>\<open>extsort_sort\<close> and
  then \<^verbatim>\<open>extsort_shift\<close> until it returns null. \<open>shift_all k\<close> is that last loop, stopped
  after \<open>k\<close> records at the latest; \<open>shift_n k\<close> calls \<^verbatim>\<open>extsort_shift\<close> exactly \<open>k\<close> times
  and keeps every result.
\<close>

fun set_all :: "(string \<Rightarrow> size_t) \<Rightarrow> extsort_t \<Rightarrow> extsort_opt_t list \<Rightarrow> error + extsort_t" where
  "set_all pms es [] = Inr es"
| "set_all pms es (k # ks) =
     (case extsort_set pms es k of Inl e \<Rightarrow> Inl e | Inr es' \<Rightarrow> set_all pms es' ks)"

definition extsort_open :: "(string \<Rightarrow> size_t) \<Rightarrow> extsort_opt_t list \<Rightarrow> error + extsort_t" where
  "extsort_open pms opts =
     (case set_all pms extsort_alloc opts of Inl e \<Rightarrow> Inl e | Inr es \<Rightarrow> extsort_init es)"

fun push_all :: "extsort_t \<Rightarrow> bytes list \<Rightarrow> error + extsort_t" where
  "push_all es [] = Inr es"
| "push_all es (d # ds) =
     (case extsort_push es d of Inl e \<Rightarrow> Inl e | Inr es' \<Rightarrow> push_all es' ds)"

fun shift_all :: "nat \<Rightarrow> extsort_t \<Rightarrow> error + bytes list \<times> extsort_t" where
  "shift_all 0 es = Inr ([], es)"
| "shift_all (Suc k) es =
     (case extsort_shift es of
        Inl e \<Rightarrow> Inl e
      | Inr (None, es') \<Rightarrow> Inr ([], es')
      | Inr (Some d, es') \<Rightarrow>
          (case shift_all k es' of
             Inl e \<Rightarrow> Inl e
           | Inr (ds, es'') \<Rightarrow> Inr (d # ds, es'')))"

fun shift_n :: "nat \<Rightarrow> extsort_t \<Rightarrow> error + bytes option list \<times> extsort_t" where
  "shift_n 0 es = Inr ([], es)"
| "shift_n (Suc k) es =
     (case extsort_shift es of
        Inl e \<Rightarrow> Inl e
      | Inr (r, es') \<Rightarrow>
          (case shift_n k es' of Inl e \<Rightarrow> Inl e | Inr (rs, es'') \<Rightarrow> Inr (r # rs, es'')))"

definition extsort_run :: "extsort_t \<Rightarrow> bytes list \<Rightarrow> nat \<Rightarrow> error + bytes list \<times> extsort_t" where
  "extsort_run es ds k =
     (case push_all es ds of
        Inl e \<Rightarrow> Inl e
      | Inr es' \<Rightarrow> (case extsort_sort es' of Inl e \<Rightarrow> Inl e | Inr es'' \<Rightarrow> shift_all k es''))"

text \<open>
  An example of a caller: records of one byte compared as numbers, a budget of 20 bytes,
  so that every third push flushes two records.
\<close>

definition cmp_byte :: extsort_cmp_f where
  "cmp_byte a b =
     int (case a of [] \<Rightarrow> 0 | x # _ \<Rightarrow> unat x) - int (case b of [] \<Rightarrow> 0 | y # _ \<Rightarrow> unat y)"

definition es_example :: extsort_t where
  "es_example =
     \<lparr>dat_size = 1, mem = 0, max_mem = 20, tmp_prefix = Some ''/tmp/bcftools-sort.XXXXXX'',
      cmp = Some cmp_byte, mbuf = 0, buf_null = True, buf = [], blk = [], tmp_dat = [0],
      bhp = None\<rparr>"

text \<open>
  A second caller: records of \<open>2 ^ 32 - 8\<close> bytes under the default budget of 100,000,000
  bytes, the session \<^verbatim>\<open>extsort_init\<close> returns for it, and a record of that size filled
  with one byte. For this record size \<^verbatim>\<open>sizeof(void *) + es->dat_size\<close> is \<open>2 ^ 32\<close>, which
  the \<^verbatim>\<open>int delta\<close> of \<^verbatim>\<open>extsort_push\<close> holds as 0.
\<close>

definition rec_big :: "byte \<Rightarrow> bytes" where
  "rec_big b = replicate 4294967288 b"

definition es_big :: extsort_t where
  "es_big =
     \<lparr>dat_size = 4294967288, mem = 0, max_mem = 100000000,
      tmp_prefix = Some ''/tmp/bcftools-sort.XXXXXX'', cmp = Some cmp_byte, mbuf = 0,
      buf_null = True, buf = [], blk = [], tmp_dat = rec_big 0, bhp = None\<rparr>"

subsection \<open>The vocabulary of the properties\<close>

text \<open>
  A comparator is a total order in the sense \<^verbatim>\<open>qsort\<close> requires: the sign of \<open>c b a\<close> is
  the opposite of the sign of \<open>c a b\<close>, and \<open>c a b \<le> 0\<close> is transitive. Records that
  compare equal need not be the same bytes.
\<close>

definition cmp_total_order :: "extsort_cmp_f \<Rightarrow> bool" where
  "cmp_total_order c =
     ((\<forall>a b. (c a b < 0) = (0 < c b a)) \<and>
      (\<forall>a b d. c a b \<le> 0 \<longrightarrow> c b d \<le> 0 \<longrightarrow> c a d \<le> 0))"

text \<open>
  The records of \<open>n\<close> bytes that a sequence of reads finds in a run of bytes, in order;
  a tail shorter than \<open>n\<close> is no record.
\<close>

function chunks :: "nat \<Rightarrow> bytes \<Rightarrow> bytes list" where
  "chunks n bs = (if n = 0 \<or> length bs < n then [] else take n bs # chunks n (drop n bs))"
  by pat_completeness auto
termination
  by (relation "measure (\<lambda>(n, bs). length bs)") auto

declare chunks.simps [simp del]

text \<open>
  The records of a block that have not been returned: none for a closed block; for an
  open block of the retrieval phase its head and the records in its file from the offset
  on (\<open>blk_rest\<close>).
\<close>

definition blk_rest :: "nat \<Rightarrow> blk_t \<Rightarrow> bytes list" where
  "blk_rest n b =
     (case fd b of None \<Rightarrow> [] | Some f \<Rightarrow> chunks n (drop (offset f) (content f)))"

definition blk_pending :: "nat \<Rightarrow> blk_t \<Rightarrow> bytes list" where
  "blk_pending n b = (case fd b of None \<Rightarrow> [] | Some f \<Rightarrow> dat b # blk_rest n b)"

subsection \<open>Invariants\<close>

text \<open>\<open>c a b \<le> 0\<close> as a relation, and what the heap needs of its comparison.\<close>

definition cmp_le :: "extsort_cmp_f \<Rightarrow> bytes \<Rightarrow> bytes \<Rightarrow> bool" where
  "cmp_le c a b = (c a b \<le> 0)"

definition weak_order :: "('a \<Rightarrow> 'a \<Rightarrow> bool) \<Rightarrow> bool" where
  "weak_order lt = ((\<forall>x y. lt x y \<longrightarrow> \<not> lt y x) \<and> (\<forall>x y z. \<not> lt y x \<longrightarrow> \<not> lt z y \<longrightarrow> \<not> lt z x))"

text \<open>
  The heap order: no entry is smaller than its parent. \<open>up_inv\<close> and \<open>down_inv\<close> are
  the heap order with one entry \<open>k\<close> out of place, on its way up or down.
\<close>

definition khp_ordered :: "('a \<Rightarrow> 'a \<Rightarrow> bool) \<Rightarrow> 'a list \<Rightarrow> bool" where
  "khp_ordered lt h = (\<forall>j<length h. 0 < j \<longrightarrow> \<not> lt (h ! j) (h ! khp_parent j))"

definition up_inv :: "('a \<Rightarrow> 'a \<Rightarrow> bool) \<Rightarrow> 'a list \<Rightarrow> nat \<Rightarrow> bool" where
  "up_inv lt h k =
     ((\<forall>j<length h. 0 < j \<longrightarrow> j \<noteq> k \<longrightarrow> \<not> lt (h ! j) (h ! khp_parent j)) \<and>
      (\<forall>j<length h. 0 < j \<longrightarrow> khp_parent j = k \<longrightarrow> 0 < k \<longrightarrow> \<not> lt (h ! j) (h ! khp_parent k)))"

definition down_inv :: "('a \<Rightarrow> 'a \<Rightarrow> bool) \<Rightarrow> 'a list \<Rightarrow> nat \<Rightarrow> bool" where
  "down_inv lt h k =
     ((\<forall>j<length h. 0 < j \<longrightarrow> khp_parent j \<noteq> k \<longrightarrow> \<not> lt (h ! j) (h ! khp_parent j)) \<and>
      (\<forall>j<length h. 0 < j \<longrightarrow> khp_parent j = k \<longrightarrow> 0 < k \<longrightarrow> \<not> lt (h ! j) (h ! khp_parent k)))"

text \<open>
  A block whose unread bytes are whole records; the block a flush creates; a block before
  its first read (\<open>run_new\<close>) and in the retrieval phase (\<open>run_ok\<close>).
\<close>

definition blk_whole :: "nat \<Rightarrow> blk_t \<Rightarrow> bool" where
  "blk_whole n b =
     (case fd b of
        None \<Rightarrow> True
      | Some f \<Rightarrow> concat (chunks n (drop (offset f) (content f))) = drop (offset f) (content f))"

definition run_of :: "extsort_cmp_f \<Rightarrow> nat \<Rightarrow> string \<Rightarrow> bytes list \<Rightarrow> blk_t" where
  "run_of c n p ds =
     \<lparr>fd = Some \<lparr>content = concat (map (take n) (qsort c ds)), offset = 0\<rparr>,
      fname = p, dat = replicate n 0\<rparr>"

definition run_new :: "extsort_cmp_f \<Rightarrow> nat \<Rightarrow> blk_t \<Rightarrow> bool" where
  "run_new c n b =
     ((\<exists>f. fd b = Some f \<and> offset f = 0) \<and> blk_whole n b \<and> length (dat b) = n \<and>
      blk_rest n b \<noteq> [] \<and> sorted_wrt (cmp_le c) (blk_rest n b))"

definition run_ok :: "extsort_cmp_f \<Rightarrow> nat \<Rightarrow> blk_t \<Rightarrow> bool" where
  "run_ok c n b =
     (fd b \<noteq> None \<longrightarrow>
      blk_whole n b \<and> length (dat b) = n \<and> sorted_wrt (cmp_le c) (dat b # blk_rest n b))"

text \<open>
  The ingestion phase: the session is configured, the buffered records have \<open>n\<close> bytes,
  every block is new, and the array \<^verbatim>\<open>es->buf\<close> is allocated unless nothing was pushed yet. \<open>stored\<close> are the records the session holds then, \<open>pending\<close> the
  records it holds in the retrieval phase.
\<close>

definition push_inv :: "extsort_cmp_f \<Rightarrow> nat \<Rightarrow> extsort_t \<Rightarrow> bool" where
  "push_inv c n es =
     (cmp es = Some c \<and> tmp_prefix es \<noteq> None \<and> unat (dat_size es) = n \<and> 0 < n \<and>
      length (tmp_dat es) = n \<and> (\<forall>d\<in>set (buf es). length d = n) \<and>
      (\<forall>b\<in>set (blk es). run_new c n b) \<and> (buf_null es \<longrightarrow> mbuf es = 0))"

definition stored :: "nat \<Rightarrow> extsort_t \<Rightarrow> bytes multiset" where
  "stored n es = sum_list (map (\<lambda>b. mset (blk_rest n b)) (blk es)) + mset (buf es)"

definition pending :: "nat \<Rightarrow> extsort_t \<Rightarrow> bytes multiset" where
  "pending n es = sum_list (map (\<lambda>b. mset (blk_pending n b)) (blk es))"

text \<open>
  The retrieval phase. The heap holds each open block among the first \<open>i\<close> once and is
  ordered by the heads; the first \<open>i\<close> blocks have been read from, the others are new.
  After the loop of \<^verbatim>\<open>extsort_sort\<close>, \<open>i\<close> is the number of blocks.
\<close>

definition heap_inv :: "extsort_cmp_f \<Rightarrow> nat \<Rightarrow> extsort_t \<Rightarrow> bool" where
  "heap_inv c i es =
     (case bhp es of
        None \<Rightarrow> False
      | Some h \<Rightarrow> distinct h \<and> set h = {j. j < i \<and> fd (blk es ! j) \<noteq> None} \<and>
                  khp_ordered (blk_is_smaller c (blk es)) h)"

definition sort_inv :: "extsort_cmp_f \<Rightarrow> nat \<Rightarrow> nat \<Rightarrow> extsort_t \<Rightarrow> bool" where
  "sort_inv c n i es =
     (cmp es = Some c \<and> unat (dat_size es) = n \<and> 0 < n \<and> n < 2 ^ 32 \<and>
      length (tmp_dat es) = n \<and> i \<le> length (blk es) \<and> heap_inv c i es \<and>
      (\<forall>j<i. run_ok c n (blk es ! j)) \<and>
      (\<forall>j. i \<le> j \<and> j < length (blk es) \<longrightarrow> run_new c n (blk es ! j)))"

definition merge_inv :: "extsort_cmp_f \<Rightarrow> nat \<Rightarrow> extsort_t \<Rightarrow> bool" where
  "merge_inv c n es = sort_inv c n (length (blk es)) es"

definition loop_pending :: "nat \<Rightarrow> nat \<Rightarrow> extsort_t \<Rightarrow> bytes multiset" where
  "loop_pending n i es =
     sum_list (map (\<lambda>b. mset (blk_pending n b)) (take i (blk es))) +
     sum_list (map (\<lambda>b. mset (blk_rest n b)) (drop i (blk es)))"

text \<open>
  The memory estimate: it is zero for an empty buffer (\<open>budget_inv\<close>), and it is the
  number of buffered records times \<^verbatim>\<open>dat_size + 8\<close> as long as no sum wraps around
  (\<open>account_inv\<close>).
\<close>

definition budget_inv :: "extsort_t \<Rightarrow> bool" where
  "budget_inv es =
     (cmp es \<noteq> None \<and> tmp_prefix es \<noteq> None \<and>
      (\<forall>r\<in>set (buf es). unat (dat_size es) \<le> length r) \<and> (buf es = [] \<longrightarrow> mem es = 0) \<and>
      (buf_null es \<longrightarrow> mbuf es = 0))"

definition account_inv :: "extsort_t \<Rightarrow> bool" where
  "account_inv es =
     (unat (mem es) = length (buf es) * (unat (dat_size es) + 8) \<and>
      (unat (mem es) \<le> unat (max_mem es) \<or> length (buf es) \<le> 1))"

section \<open>Lemmas\<close>

subsection \<open>The binary heap\<close>

lemma khp_extreme_cases:
  "khp_extreme lt h i = i \<or>
   (khp_extreme lt h i = khp_lchild i \<and> khp_lchild i < length h) \<or>
   (khp_extreme lt h i = khp_rchild i \<and> khp_rchild i < length h)"
  by (auto simp: khp_extreme_def Let_def)

lemma khp_extreme_gt: "khp_extreme lt h i \<noteq> i \<Longrightarrow> i < khp_extreme lt h i \<and> khp_extreme lt h i < length h"
  using khp_extreme_cases [of lt h i] by (auto simp: khp_lchild_def khp_rchild_def)

lemma weak_orderD1: "weak_order lt \<Longrightarrow> lt x y \<Longrightarrow> \<not> lt y x"
  unfolding weak_order_def by blast

lemma weak_orderD2: "weak_order lt \<Longrightarrow> \<not> lt y x \<Longrightarrow> \<not> lt z y \<Longrightarrow> \<not> lt z x"
  unfolding weak_order_def by blast

lemma weak_order_irrefl: "weak_order lt \<Longrightarrow> \<not> lt x x"
  unfolding weak_order_def by blast

lemma khp_parent_less: "0 < j \<Longrightarrow> khp_parent j < j"
  by (simp add: khp_parent_def)

lemma length_khp_swap [simp]: "length (khp_swap h i j) = length h"
  by (simp add: khp_swap_def)

lemma mset_khp_swap: "i < length h \<Longrightarrow> j < length h \<Longrightarrow> mset (khp_swap h i j) = mset h"
  by (simp add: khp_swap_def mset_swap)

lemma nth_khp_swap:
  "i < length h \<Longrightarrow> j < length h \<Longrightarrow>
   khp_swap h i j ! m = (if m = j then h ! i else if m = i then h ! j else h ! m)"
  by (auto simp: khp_swap_def nth_list_update)

lemma length_khp_up [simp]: "length (khp_up lt h i) = length h"
proof (induction lt h i rule: khp_up.induct)
  case (1 lt h i)
  then show ?case by (subst khp_up.simps) simp
qed

lemma mset_khp_up: "i < length h \<Longrightarrow> mset (khp_up lt h i) = mset h"
proof (induction lt h i rule: khp_up.induct)
  case (1 lt h i)
  show ?case
  proof (cases "0 < i \<and> lt (h ! i) (h ! khp_parent i)")
    case True
    then have p: "khp_parent i < length h" using khp_parent_less [of i] "1.prems" by simp
    have "mset (khp_up lt h i) = mset (khp_up lt (khp_swap h i (khp_parent i)) (khp_parent i))"
      using True by (subst khp_up.simps) simp
    also have "\<dots> = mset (khp_swap h i (khp_parent i))"
      using "1.IH" True p by simp
    also have "\<dots> = mset h" using p "1.prems" by (simp add: mset_khp_swap)
    finally show ?thesis .
  next
    case False
    then show ?thesis by (subst khp_up.simps) auto
  qed
qed

lemma length_khp_heapify [simp]: "length (khp_heapify lt h i) = length h"
proof (induction lt h i rule: khp_heapify.induct)
  case (1 lt h i)
  then show ?case by (subst khp_heapify.simps) simp
qed

lemma mset_khp_heapify: "i < length h \<Longrightarrow> mset (khp_heapify lt h i) = mset h"
proof (induction lt h i rule: khp_heapify.induct)
  case (1 lt h i)
  show ?case
  proof (cases "khp_extreme lt h i \<noteq> i")
    case True
    then have e: "khp_extreme lt h i < length h" using khp_extreme_gt [of lt h i] by simp
    have "mset (khp_heapify lt h i) =
          mset (khp_heapify lt (khp_swap h i (khp_extreme lt h i)) (khp_extreme lt h i))"
      using True by (subst khp_heapify.simps) simp
    also have "\<dots> = mset (khp_swap h i (khp_extreme lt h i))"
      using "1.IH" True e by simp
    also have "\<dots> = mset h" using e "1.prems" by (simp add: mset_khp_swap)
    finally show ?thesis .
  next
    case False
    then show ?thesis by (subst khp_heapify.simps) auto
  qed
qed

lemma mset_khp_insert: "mset (khp_insert lt h x) = add_mset x (mset h)"
  by (simp add: khp_insert_def mset_khp_up)

lemma length_khp_insert [simp]: "length (khp_insert lt h x) = Suc (length h)"
  by (simp add: khp_insert_def)

lemma mset_butlast_root: "h \<noteq> [] \<Longrightarrow> mset ((butlast h)[0 := last h]) = mset h - {#h ! 0#}"
proof (cases h)
  case Nil
  assume "h \<noteq> []" with Nil show ?thesis by simp
next
  case (Cons x xs)
  show ?thesis
  proof (cases "xs = []")
    case True
    with Cons show ?thesis by simp
  next
    case False
    have "mset (last xs # butlast xs) = mset (butlast xs @ [last xs])" by simp
    also have "\<dots> = mset xs" by (simp only: append_butlast_last_id [OF False])
    finally have "mset (last xs # butlast xs) = mset xs" .
    with Cons False show ?thesis by simp
  qed
qed

lemma mset_khp_delete: "h \<noteq> [] \<Longrightarrow> mset (khp_delete lt h) = mset h - {#h ! 0#}"
proof -
  assume ne: "h \<noteq> []"
  show ?thesis
  proof (cases "butlast h = []")
    case True
    then have "khp_heapify lt ((butlast h)[0 := last h]) 0 = []"
      by (subst khp_heapify.simps) (simp add: khp_extreme_def khp_lchild_def khp_rchild_def)
    moreover have "mset h - {#h ! 0#} = {#}"
      using True ne by (cases h) (auto split: if_splits)
    ultimately show ?thesis using ne by (simp add: khp_delete_def)
  next
    case False
    then have "0 < length ((butlast h)[0 := last h])"
      by (cases "butlast h") simp_all
    then have "mset (khp_heapify lt ((butlast h)[0 := last h]) 0) = mset ((butlast h)[0 := last h])"
      by (rule mset_khp_heapify)
    then show ?thesis using ne
      by (simp add: khp_delete_def mset_butlast_root)
  qed
qed

lemma khp_ordered_root:
  assumes "weak_order lt" "khp_ordered lt h" "i < length h"
  shows "\<not> lt (h ! i) (h ! 0)"
  using assms(3)
proof (induction i rule: less_induct)
  case (less i)
  show ?case
  proof (cases "i = 0")
    case True
    then show ?thesis using weak_order_irrefl [OF assms(1)] by simp
  next
    case False
    then have p: "khp_parent i < i" by (simp add: khp_parent_less)
    then have "\<not> lt (h ! khp_parent i) (h ! 0)" using less by simp
    moreover have "\<not> lt (h ! i) (h ! khp_parent i)"
      using assms(2) False less.prems by (simp add: khp_ordered_def)
    ultimately show ?thesis using weak_orderD2 [OF assms(1)] by blast
  qed
qed

lemma up_inv_step:
  assumes wo: "weak_order lt" and inv: "up_inv lt h k" and k: "k < length h"
    and pos: "0 < k" and sm: "lt (h ! k) (h ! khp_parent k)"
  shows "up_inv lt (khp_swap h k (khp_parent k)) (khp_parent k)"
proof -
  define p where "p = khp_parent k"
  define h' where "h' = khp_swap h k p"
  have pk: "p < k" using pos by (simp add: p_def khp_parent_less)
  have pl: "p < length h" using pk k by simp
  have nth: "\<And>m. h' ! m = (if m = p then h ! k else if m = k then h ! p else h ! m)"
    using k pl by (simp add: h'_def nth_khp_swap)
  have inv1: "\<And>j. j < length h \<Longrightarrow> 0 < j \<Longrightarrow> j \<noteq> k \<Longrightarrow> \<not> lt (h ! j) (h ! khp_parent j)"
    using inv by (simp add: up_inv_def)
  have inv2: "\<And>j. j < length h \<Longrightarrow> 0 < j \<Longrightarrow> khp_parent j = k \<Longrightarrow> \<not> lt (h ! j) (h ! p)"
    using inv pos by (simp add: up_inv_def p_def)
  have sm': "lt (h ! k) (h ! p)" using sm by (simp add: p_def)
  have kp: "\<not> lt (h ! p) (h ! k)" using weak_orderD1 [OF wo sm'] .
  have a: "\<not> lt (h' ! j) (h' ! khp_parent j)" if j: "j < length h" "0 < j" "j \<noteq> p" for j
  proof (cases "j = k")
    case True
    then show ?thesis using kp pk by (simp add: nth p_def [symmetric])
  next
    case False
    have hj: "h' ! j = h ! j" using False j by (simp add: nth)
    have old: "\<not> lt (h ! j) (h ! khp_parent j)" using inv1 j False by simp
    consider "khp_parent j = k" | "khp_parent j = p" | "khp_parent j \<noteq> k" "khp_parent j \<noteq> p"
      by blast
    then show ?thesis
    proof cases
      case 1
      have "h' ! khp_parent j = h ! p" using 1 pk by (simp add: nth)
      then show ?thesis using inv2 [OF j(1) j(2) 1] by (simp add: hj)
    next
      case 2
      have "\<not> lt (h ! j) (h ! k)"
        using weak_orderD2 [OF wo kp] old 2 by simp
      moreover have "h' ! khp_parent j = h ! k" using 2 by (simp add: nth)
      ultimately show ?thesis by (simp add: hj)
    next
      case 3
      then have "h' ! khp_parent j = h ! khp_parent j" by (simp add: nth)
      then show ?thesis using old by (simp add: hj)
    qed
  qed
  have b: "\<not> lt (h' ! j) (h' ! khp_parent p)"
    if j: "j < length h" "0 < j" "khp_parent j = p" "0 < p" for j
  proof -
    have pp: "khp_parent p < p" using j(4) by (simp add: khp_parent_less)
    have hpp: "h' ! khp_parent p = h ! khp_parent p" using pp pk by (simp add: nth)
    have ppar: "\<not> lt (h ! p) (h ! khp_parent p)" using inv1 [OF pl j(4)] pk by simp
    have jp: "j \<noteq> p" using khp_parent_less [OF j(2)] j(3) by simp
    show ?thesis
    proof (cases "j = k")
      case True
      then have "h' ! j = h ! p" using pk by (simp add: nth)
      then show ?thesis using ppar by (simp add: hpp)
    next
      case False
      have "\<not> lt (h ! j) (h ! p)" using inv1 [OF j(1) j(2) False] j(3) by simp
      then have "\<not> lt (h ! j) (h ! khp_parent p)"
        using weak_orderD2 [OF wo ppar] by simp
      moreover have "h' ! j = h ! j" using False jp by (simp add: nth)
      ultimately show ?thesis by (simp add: hpp)
    qed
  qed
  show ?thesis
    unfolding up_inv_def p_def [symmetric] h'_def [symmetric]
    using a b by (simp add: h'_def)
qed

lemma khp_up_ordered:
  "weak_order lt \<Longrightarrow> up_inv lt h k \<Longrightarrow> k < length h \<Longrightarrow> khp_ordered lt (khp_up lt h k)"
proof (induction lt h k rule: khp_up.induct)
  case (1 lt h k)
  show ?case
  proof (cases "0 < k \<and> lt (h ! k) (h ! khp_parent k)")
    case True
    have "up_inv lt (khp_swap h k (khp_parent k)) (khp_parent k)"
      using up_inv_step [OF "1.prems"(1,2,3)] True by simp
    moreover have "khp_parent k < length (khp_swap h k (khp_parent k))"
      using True "1.prems"(3) khp_parent_less [of k] by simp
    ultimately have "khp_ordered lt (khp_up lt (khp_swap h k (khp_parent k)) (khp_parent k))"
      using "1.IH" True "1.prems"(1) by simp
    then show ?thesis using True by (subst khp_up.simps) simp
  next
    case False
    have "khp_ordered lt h"
      unfolding khp_ordered_def
    proof (intro allI impI)
      fix j assume j: "j < length h" "0 < j"
      show "\<not> lt (h ! j) (h ! khp_parent j)"
      proof (cases "j = k")
        case True
        then show ?thesis using False j by simp
      next
        case False
        then show ?thesis using "1.prems"(2) j by (simp add: up_inv_def)
      qed
    qed
    then show ?thesis using False by (subst khp_up.simps) auto
  qed
qed

lemma khp_insert_ordered:
  assumes "weak_order lt" "khp_ordered lt h"
  shows "khp_ordered lt (khp_insert lt h x)"
proof -
  have "up_inv lt (h @ [x]) (length h)"
    unfolding up_inv_def
  proof (intro conjI allI impI)
    fix j assume j: "j < length (h @ [x])" "0 < j" "j \<noteq> length h"
    then have jl: "j < length h" by simp
    then have "khp_parent j < length h" using khp_parent_less [OF j(2)] by simp
    then show "\<not> lt ((h @ [x]) ! j) ((h @ [x]) ! khp_parent j)"
      using assms(2) jl j(2) by (simp add: khp_ordered_def nth_append)
  next
    fix j assume j: "j < length (h @ [x])" "0 < j" "khp_parent j = length h"
    then show "\<not> lt ((h @ [x]) ! j) ((h @ [x]) ! khp_parent (length h))"
      using khp_parent_less [OF j(2)] by simp
  qed
  then show ?thesis using assms(1) by (simp add: khp_insert_def khp_up_ordered)
qed

lemma khp_parent_child:
  "0 < j \<Longrightarrow> khp_parent j = k \<Longrightarrow> j = khp_lchild k \<or> j = khp_rchild k"
  by (auto simp: khp_parent_def khp_lchild_def khp_rchild_def)

lemma khp_parent_lchild [simp]: "khp_parent (khp_lchild k) = k"
  by (simp add: khp_parent_def khp_lchild_def)

lemma khp_parent_rchild [simp]: "khp_parent (khp_rchild k) = k"
  by (simp add: khp_parent_def khp_rchild_def)

lemma khp_extreme_parent: "khp_extreme lt h k \<noteq> k \<Longrightarrow> khp_parent (khp_extreme lt h k) = k"
  using khp_extreme_cases [of lt h k] by auto

lemma khp_extreme_min:
  assumes wo: "weak_order lt" and j: "j < length h" "0 < j" "khp_parent j = k"
  shows "\<not> lt (h ! j) (h ! khp_extreme lt h k)"
proof -
  define l where "l = khp_lchild k"
  define r where "r = khp_rchild k"
  define e1 where "e1 = (if l < length h \<and> lt (h ! l) (h ! k) then l else k)"
  have e: "khp_extreme lt h k = (if r < length h \<and> lt (h ! r) (h ! e1) then r else e1)"
    unfolding khp_extreme_def Let_def e1_def l_def r_def by (rule refl)
  have lr: "l < r" by (simp add: l_def r_def khp_lchild_def khp_rchild_def)
  have jc: "j = l \<or> j = r" using khp_parent_child [OF j(2,3)] by (simp add: l_def r_def)
  have irr: "\<And>x. \<not> lt x x" using weak_order_irrefl [OF wo] .
  show ?thesis
  proof (cases "r < length h \<and> lt (h ! r) (h ! e1)")
    case True
    then have er: "khp_extreme lt h k = r" by (auto simp: e)
    show ?thesis
    proof (cases "j = r")
      case True
      then show ?thesis by (simp add: er irr)
    next
      case False
      then have jl: "j = l" using jc by simp
      show ?thesis
      proof (cases "lt (h ! l) (h ! k)")
        case True
        then have "e1 = l" using j(1) jl by (auto simp: e1_def)
        then have "lt (h ! r) (h ! l)" using \<open>r < length h \<and> lt (h ! r) (h ! e1)\<close> by simp
        then show ?thesis using weak_orderD1 [OF wo] by (simp add: er jl)
      next
        case False
        then have "e1 = k" by (auto simp: e1_def)
        then have "lt (h ! r) (h ! k)" using \<open>r < length h \<and> lt (h ! r) (h ! e1)\<close> by simp
        then have "\<not> lt (h ! k) (h ! r)" using weak_orderD1 [OF wo] by simp
        then have "\<not> lt (h ! l) (h ! r)" using weak_orderD2 [OF wo _ False] by simp
        then show ?thesis by (simp add: er jl)
      qed
    qed
  next
    case False
    then have ee: "khp_extreme lt h k = e1" by (auto simp: e)
    show ?thesis
    proof (cases "j = r")
      case True
      then show ?thesis using False j(1) by (simp add: ee)
    next
      case F2: False
      then have jl: "j = l" using jc by simp
      show ?thesis
      proof (cases "lt (h ! l) (h ! k)")
        case True
        then have "e1 = l" using j(1) jl by (auto simp: e1_def)
        then show ?thesis by (simp add: ee jl irr)
      next
        case False
        then have "e1 = k" by (auto simp: e1_def)
        then show ?thesis using False by (simp add: ee jl)
      qed
    qed
  qed
qed

lemma khp_extreme_lt:
  assumes wo: "weak_order lt" and ne: "khp_extreme lt h k \<noteq> k"
  shows "lt (h ! khp_extreme lt h k) (h ! k)"
proof -
  define l where "l = khp_lchild k"
  define r where "r = khp_rchild k"
  define e1 where "e1 = (if l < length h \<and> lt (h ! l) (h ! k) then l else k)"
  have e: "khp_extreme lt h k = (if r < length h \<and> lt (h ! r) (h ! e1) then r else e1)"
    unfolding khp_extreme_def Let_def e1_def l_def r_def by (rule refl)
  show ?thesis
  proof (cases "r < length h \<and> lt (h ! r) (h ! e1)")
    case True
    then have er: "khp_extreme lt h k = r" by (auto simp: e)
    show ?thesis
    proof (cases "l < length h \<and> lt (h ! l) (h ! k)")
      case T2: True
      then have "e1 = l" by (auto simp: e1_def)
      then have rl: "lt (h ! r) (h ! l)" using True by simp
      have "lt (h ! r) (h ! k)"
      proof (rule ccontr)
        assume "\<not> lt (h ! r) (h ! k)"
        moreover have "\<not> lt (h ! l) (h ! r)" using weak_orderD1 [OF wo rl] .
        ultimately have "\<not> lt (h ! l) (h ! k)" using weak_orderD2 [OF wo] by blast
        then show False using T2 by simp
      qed
      then show ?thesis by (simp add: er)
    next
      case False
      then have "e1 = k" by (auto simp: e1_def)
      then show ?thesis using True by (simp add: er)
    qed
  next
    case False
    then have ee: "khp_extreme lt h k = e1" by (auto simp: e)
    then have "e1 \<noteq> k" using ne by simp
    then have "e1 = l \<and> lt (h ! l) (h ! k)" by (auto simp: e1_def split: if_splits)
    then show ?thesis by (simp add: ee)
  qed
qed

lemma down_inv_step:
  assumes wo: "weak_order lt" and inv: "down_inv lt h k" and ne: "khp_extreme lt h k \<noteq> k"
  shows "down_inv lt (khp_swap h k (khp_extreme lt h k)) (khp_extreme lt h k)"
proof -
  define e where "e = khp_extreme lt h k"
  define h' where "h' = khp_swap h k e"
  have ke: "k < e" and el: "e < length h"
    using khp_extreme_gt [OF ne] by (simp_all add: e_def)
  have kl: "k < length h" using ke el by simp
  have pe: "khp_parent e = k" using khp_extreme_parent [OF ne] by (simp add: e_def)
  have nth: "\<And>m. h' ! m = (if m = e then h ! k else if m = k then h ! e else h ! m)"
    using kl el by (simp add: h'_def nth_khp_swap)
  have inv1: "\<And>j. j < length h \<Longrightarrow> 0 < j \<Longrightarrow> khp_parent j \<noteq> k \<Longrightarrow> \<not> lt (h ! j) (h ! khp_parent j)"
    using inv by (simp add: down_inv_def)
  have inv2: "\<And>j. j < length h \<Longrightarrow> 0 < j \<Longrightarrow> khp_parent j = k \<Longrightarrow> 0 < k \<Longrightarrow> \<not> lt (h ! j) (h ! khp_parent k)"
    using inv by (simp add: down_inv_def)
  have ek: "lt (h ! e) (h ! k)" using khp_extreme_lt [OF wo ne] by (simp add: e_def)
  have mn: "\<And>j. j < length h \<Longrightarrow> 0 < j \<Longrightarrow> khp_parent j = k \<Longrightarrow> \<not> lt (h ! j) (h ! e)"
    using khp_extreme_min [OF wo] by (simp add: e_def)
  have a: "\<not> lt (h' ! j) (h' ! khp_parent j)"
    if j: "j < length h" "0 < j" "khp_parent j \<noteq> e" for j
  proof -
    consider "j = e" | "j = k" | "j \<noteq> e" "j \<noteq> k" by blast
    then show ?thesis
    proof cases
      case 1
      have "h' ! j = h ! k" using 1 by (simp add: nth)
      moreover have "h' ! khp_parent j = h ! e" using 1 pe ke by (simp add: nth)
      ultimately show ?thesis using weak_orderD1 [OF wo ek] by simp
    next
      case 2
      have pk: "khp_parent k < k" using j(2) 2 by (simp add: khp_parent_less)
      have "h' ! j = h ! e" using 2 ke by (simp add: nth)
      moreover have "h' ! khp_parent j = h ! khp_parent k" using 2 pk ke by (simp add: nth)
      moreover have "\<not> lt (h ! e) (h ! khp_parent k)"
        using inv2 [OF el _ pe] ke j(2) 2 by simp
      ultimately show ?thesis by simp
    next
      case 3
      have hj: "h' ! j = h ! j" using 3 by (simp add: nth)
      show ?thesis
      proof (cases "khp_parent j = k")
        case True
        then have "h' ! khp_parent j = h ! e" using ke by (simp add: nth)
        then show ?thesis using mn [OF j(1,2) True] by (simp add: hj)
      next
        case False
        then have "h' ! khp_parent j = h ! khp_parent j" using j(3) by (simp add: nth)
        then show ?thesis using inv1 [OF j(1,2) False] by (simp add: hj)
      qed
    qed
  qed
  have b: "\<not> lt (h' ! j) (h' ! khp_parent e)"
    if j: "j < length h" "0 < j" "khp_parent j = e" for j
  proof -
    have je: "e < j" using khp_parent_less [OF j(2)] j(3) by simp
    have "h' ! j = h ! j" using je ke by (simp add: nth)
    moreover have "h' ! khp_parent e = h ! e" using pe ke by (simp add: nth)
    moreover have "\<not> lt (h ! j) (h ! e)"
      using inv1 [OF j(1,2)] j(3) ke by simp
    ultimately show ?thesis by simp
  qed
  show ?thesis
    unfolding down_inv_def e_def [symmetric] h'_def [symmetric]
    using a b by (simp add: h'_def)
qed

lemma khp_heapify_ordered:
  "weak_order lt \<Longrightarrow> down_inv lt h k \<Longrightarrow> khp_ordered lt (khp_heapify lt h k)"
proof (induction lt h k rule: khp_heapify.induct)
  case (1 lt h k)
  show ?case
  proof (cases "khp_extreme lt h k \<noteq> k")
    case True
    have "down_inv lt (khp_swap h k (khp_extreme lt h k)) (khp_extreme lt h k)"
      using down_inv_step [OF "1.prems" True] .
    then have "khp_ordered lt (khp_heapify lt (khp_swap h k (khp_extreme lt h k)) (khp_extreme lt h k))"
      using "1.IH" True "1.prems"(1) by simp
    then show ?thesis using True by (subst khp_heapify.simps) simp
  next
    case False
    have "khp_ordered lt h"
      unfolding khp_ordered_def
    proof (intro allI impI)
      fix j assume j: "j < length h" "0 < j"
      show "\<not> lt (h ! j) (h ! khp_parent j)"
      proof (cases "khp_parent j = k")
        case True
        then show ?thesis using khp_extreme_min [OF "1.prems"(1) j True] False by simp
      next
        case F2: False
        then show ?thesis using "1.prems"(2) j by (simp add: down_inv_def)
      qed
    qed
    then show ?thesis using False by (subst khp_heapify.simps) auto
  qed
qed

text \<open>Deleting the root keeps the heap ordered, also when the comparison has changed
  on the deleted element only (the run at the root has its head swapped away before the
  deletion).\<close>

lemma khp_delete_ordered:
  assumes wo: "weak_order lt'" and ord: "khp_ordered lt h"
    and agree: "\<forall>x\<in>set ((butlast h)[0 := last h]). \<forall>y\<in>set ((butlast h)[0 := last h]). lt' x y = lt x y"
  shows "khp_ordered lt' (khp_delete lt' h)"
proof (cases "h = []")
  case True
  then show ?thesis by (simp add: khp_delete_def khp_ordered_def)
next
  case False
  define g where "g = (butlast h)[0 := last h]"
  have lg: "length g = length h - 1" by (simp add: g_def)
  have "down_inv lt' g 0"
    unfolding down_inv_def
  proof (intro conjI allI impI)
    fix j assume j: "j < length g" "0 < j" "khp_parent j \<noteq> 0"
    have pj: "khp_parent j < j" using j(2) by (simp add: khp_parent_less)
    have gj: "g ! j = h ! j" using j by (simp add: g_def nth_butlast)
    have gp: "g ! khp_parent j = h ! khp_parent j"
      using j pj by (simp add: g_def nth_butlast)
    have "\<not> lt (h ! j) (h ! khp_parent j)"
      using ord j lg by (simp add: khp_ordered_def)
    moreover have "g ! j \<in> set g" "g ! khp_parent j \<in> set g"
      using j pj by simp_all
    ultimately show "\<not> lt' (g ! j) (g ! khp_parent j)"
      using agree gj gp by (simp add: g_def [symmetric])
  next
    fix j assume "0 < (0::nat)"
    then show "\<not> lt' (g ! j) (g ! khp_parent 0)" by simp
  qed
  then have "khp_ordered lt' (khp_heapify lt' g 0)" using wo by (rule khp_heapify_ordered [rotated])
  then show ?thesis using False by (simp add: khp_delete_def g_def)
qed

lemma khp_ordered_cong:
  assumes "khp_ordered lt h" "\<forall>x\<in>set h. \<forall>y\<in>set h. lt' x y = lt x y"
  shows "khp_ordered lt' h"
  unfolding khp_ordered_def
proof (intro allI impI)
  fix j assume j: "j < length h" "0 < j"
  then have "khp_parent j < length h" using khp_parent_less [OF j(2)] by simp
  then have "h ! j \<in> set h" "h ! khp_parent j \<in> set h" using j by simp_all
  moreover have "\<not> lt (h ! j) (h ! khp_parent j)" using assms(1) j by (simp add: khp_ordered_def)
  ultimately show "\<not> lt' (h ! j) (h ! khp_parent j)" using assms(2) by simp
qed

subsection \<open>Comparators, sorting and files of whole records\<close>

lemma cmp_le_trans: "cmp_total_order c \<Longrightarrow> cmp_le c a b \<Longrightarrow> cmp_le c b d \<Longrightarrow> cmp_le c a d"
  unfolding cmp_total_order_def cmp_le_def by blast

lemma cmp_le_total: "cmp_total_order c \<Longrightarrow> \<not> cmp_le c a b \<Longrightarrow> cmp_le c b a"
proof -
  assume t: "cmp_total_order c" and n: "\<not> cmp_le c a b"
  then have "0 < c a b" by (simp add: cmp_le_def)
  then have "c b a < 0" using t unfolding cmp_total_order_def by blast
  then show ?thesis by (simp add: cmp_le_def)
qed

lemma cmp_le_refl: "cmp_total_order c \<Longrightarrow> cmp_le c a a"
  using cmp_le_total [of c a a] by blast

lemma cmp_not_less: "cmp_total_order c \<Longrightarrow> (\<not> c b a < 0) = cmp_le c a b"
proof -
  assume t: "cmp_total_order c"
  have "(c b a < 0) = (0 < c a b)" using t unfolding cmp_total_order_def by blast
  then show ?thesis by (auto simp: cmp_le_def)
qed

lemma weak_order_blk_is_smaller:
  assumes t: "cmp_total_order c"
  shows "weak_order (blk_is_smaller c bs)"
  unfolding weak_order_def blk_is_smaller_def
proof (intro conjI allI impI)
  fix x y assume "c (dat (bs ! x)) (dat (bs ! y)) < 0"
  then have "0 < c (dat (bs ! y)) (dat (bs ! x))"
    using t unfolding cmp_total_order_def by blast
  then show "\<not> c (dat (bs ! y)) (dat (bs ! x)) < 0" by simp
next
  fix x y z
  assume "\<not> c (dat (bs ! y)) (dat (bs ! x)) < 0" "\<not> c (dat (bs ! z)) (dat (bs ! y)) < 0"
  then have "cmp_le c (dat (bs ! x)) (dat (bs ! y))" "cmp_le c (dat (bs ! y)) (dat (bs ! z))"
    by (simp_all add: cmp_not_less [OF t])
  then have "cmp_le c (dat (bs ! x)) (dat (bs ! z))" using cmp_le_trans [OF t] by blast
  then show "\<not> c (dat (bs ! z)) (dat (bs ! x)) < 0" by (simp add: cmp_not_less [OF t])
qed

lemma mset_qsort_insert: "mset (qsort_insert c x ys) = add_mset x (mset ys)"
  by (induction ys) simp_all

lemma mset_qsort: "mset (qsort c xs) = mset xs"
  by (induction xs) (simp_all add: mset_qsort_insert)

lemma set_qsort: "set (qsort c xs) = set xs"
  using mset_qsort [of c xs] by (metis set_mset_mset)

lemma length_qsort: "length (qsort c xs) = length xs"
  using mset_qsort [of c xs] by (metis size_mset)

lemma set_qsort_insert: "set (qsort_insert c x ys) = insert x (set ys)"
  using mset_qsort_insert [of c x ys] by (metis set_mset_mset set_mset_add_mset_insert)

lemma sorted_qsort_insert:
  assumes t: "cmp_total_order c"
  shows "sorted_wrt (cmp_le c) ys \<Longrightarrow> sorted_wrt (cmp_le c) (qsort_insert c x ys)"
proof (induction ys)
  case Nil
  then show ?case by simp
next
  case (Cons y ys)
  show ?case
  proof (cases "c x y \<le> 0")
    case True
    then have xy: "cmp_le c x y" by (simp add: cmp_le_def)
    have "\<forall>z\<in>set ys. cmp_le c x z"
      using Cons.prems cmp_le_trans [OF t xy] by auto
    then show ?thesis using True xy Cons.prems by simp
  next
    case False
    then have "cmp_le c y x" using cmp_le_total [OF t] by (simp add: cmp_le_def)
    then show ?thesis using False Cons by (auto simp: set_qsort_insert)
  qed
qed

lemma sorted_qsort: "cmp_total_order c \<Longrightarrow> sorted_wrt (cmp_le c) (qsort c xs)"
  by (induction xs) (simp_all add: sorted_qsort_insert)

lemma chunks_Nil [simp]: "chunks n [] = []"
  by (subst chunks.simps) auto

lemma chunks_append:
  "0 < n \<Longrightarrow> length d = n \<Longrightarrow> chunks n (d @ bs) = d # chunks n bs"
  by (subst chunks.simps) simp

lemma chunks_concat: "0 < n \<Longrightarrow> \<forall>d\<in>set ds. length d = n \<Longrightarrow> chunks n (concat ds) = ds"
  by (induction ds) (simp_all add: chunks_append)

lemma length_chunks_elem: "d \<in> set (chunks n bs) \<Longrightarrow> length d = n"
proof (induction n bs rule: chunks.induct)
  case (1 n bs)
  show ?case
  proof (cases "n = 0 \<or> length bs < n")
    case True
    then show ?thesis using "1.prems" by (subst (asm) chunks.simps) auto
  next
    case False
    then have "d \<in> set (take n bs # chunks n (drop n bs))"
      using "1.prems" by (subst (asm) chunks.simps) auto
    then show ?thesis using "1.IH" False by auto
  qed
qed

lemma chunks_whole_Cons:
  assumes "0 < n" "concat (chunks n bs) = bs" "bs \<noteq> []"
  shows "n \<le> length bs \<and> chunks n bs = take n bs # chunks n (drop n bs) \<and>
         concat (chunks n (drop n bs)) = drop n bs"
proof -
  have ge: "n \<le> length bs"
  proof (rule ccontr)
    assume "\<not> n \<le> length bs"
    then have "chunks n bs = []" by (subst chunks.simps) simp
    then show False using assms by simp
  qed
  then have c: "chunks n bs = take n bs # chunks n (drop n bs)"
    using assms(1) by (subst chunks.simps) simp
  have "take n bs @ concat (chunks n (drop n bs)) = take n bs @ drop n bs"
    using assms(2) c by simp
  then have "concat (chunks n (drop n bs)) = drop n bs" by (simp only: same_append_eq)
  then show ?thesis using ge c by simp
qed

lemma chunks_whole_Nil: "0 < n \<Longrightarrow> concat (chunks n bs) = bs \<Longrightarrow> chunks n bs = [] \<Longrightarrow> bs = []"
  by simp

lemma sys_write_append:
  "offset f = length (content f) \<Longrightarrow>
   sys_write f d = (length d, \<lparr>content = content f @ d, offset = length (content f @ d)\<rparr>)"
  by (simp add: sys_write_def)

lemma buf_write_append:
  "offset f = length (content f) \<Longrightarrow> \<forall>d\<in>set ds. n \<le> length d \<Longrightarrow>
   buf_write n f ds =
     Inr \<lparr>content = content f @ concat (map (take n) ds),
          offset = length (content f @ concat (map (take n) ds))\<rparr>"
proof (induction ds arbitrary: f)
  case Nil
  then show ?case by simp
next
  case (Cons d ds)
  have w: "sys_write f (take n d) =
           (n, \<lparr>content = content f @ take n d, offset = length (content f @ take n d)\<rparr>)"
    using Cons.prems by (simp add: sys_write_append min_def)
  have "buf_write n \<lparr>content = content f @ take n d, offset = length (content f @ take n d)\<rparr> ds =
        Inr \<lparr>content = (content f @ take n d) @ concat (map (take n) ds),
             offset = length ((content f @ take n d) @ concat (map (take n) ds))\<rparr>"
    using Cons.prems by (subst Cons.IH) simp_all
  then show ?case using Cons.prems w by simp
qed

lemma blk_read_data:
  assumes "fd b = Some f" "0 < unat n" "blk_whole (unat n) b" "blk_rest (unat n) b = r # rs"
    and "length (dat b) \<le> unat n"
  shows "blk_read n b = Inr (n, b\<lparr>fd := Some (f\<lparr>offset := offset f + unat n\<rparr>), dat := r\<rparr>)"
    and "blk_rest (unat n) (b\<lparr>fd := Some (f\<lparr>offset := offset f + unat n\<rparr>), dat := r\<rparr>) = rs"
    and "blk_whole (unat n) (b\<lparr>fd := Some (f\<lparr>offset := offset f + unat n\<rparr>), dat := r\<rparr>)"
proof -
  define bs where "bs = drop (offset f) (content f)"
  have wh: "concat (chunks (unat n) bs) = bs" using assms(1,3) by (simp add: blk_whole_def bs_def)
  have ch: "chunks (unat n) bs = r # rs" using assms(1,4) by (simp add: blk_rest_def bs_def)
  have ne: "bs \<noteq> []" using ch by auto
  note x = chunks_whole_Cons [OF assms(2) wh ne]
  have r: "r = take (unat n) bs" and rs: "rs = chunks (unat n) (drop (unat n) bs)"
    using x ch by simp_all
  have lr: "length r = unat n" using x r by simp
  have rd: "sys_read f (unat n) = (r, f\<lparr>offset := offset f + unat n\<rparr>)"
    using lr by (simp add: sys_read_def Let_def r bs_def)
  show "blk_read n b = Inr (n, b\<lparr>fd := Some (f\<lparr>offset := offset f + unat n\<rparr>), dat := r\<rparr>)"
  proof -
    have "r \<noteq> []" using lr assms(2) by auto
    then show ?thesis using assms(1,5) rd lr by (simp add: blk_read_def)
  qed
  have dd: "drop (offset f + unat n) (content f) = drop (unat n) bs"
    by (simp add: bs_def add.commute)
  show "blk_rest (unat n) (b\<lparr>fd := Some (f\<lparr>offset := offset f + unat n\<rparr>), dat := r\<rparr>) = rs"
    by (simp add: blk_rest_def dd rs)
  show "blk_whole (unat n) (b\<lparr>fd := Some (f\<lparr>offset := offset f + unat n\<rparr>), dat := r\<rparr>)"
    using x by (simp add: blk_whole_def dd)
qed

lemma blk_read_eof:
  assumes "fd b = Some f" "0 < unat n" "blk_whole (unat n) b" "blk_rest (unat n) b = []"
  shows "blk_read n b = Inr (0, b\<lparr>fd := None\<rparr>)"
proof -
  have "drop (offset f) (content f) = []"
    using assms by (simp add: blk_whole_def blk_rest_def)
  then show ?thesis using assms(1) by (simp add: blk_read_def sys_read_def)
qed

subsection \<open>The ingestion phase\<close>

lemma buf_flush_eq:
  assumes "cmp es = Some c" "tmp_prefix es = Some p" "buf es \<noteq> []"
    and "\<forall>d\<in>set (buf es). unat (dat_size es) \<le> length d"
  shows "buf_flush es =
         Inr (es\<lparr>blk := blk es @ [run_of c (unat (dat_size es)) p (buf es)], buf := [], mem := 0\<rparr>)"
proof -
  have "\<forall>d\<in>set (qsort c (buf es)). unat (dat_size es) \<le> length d"
    using assms(4) by (simp add: set_qsort)
  then have "buf_write (unat (dat_size es)) sys_mkstemp (qsort c (buf es)) =
        Inr \<lparr>content = concat (map (take (unat (dat_size es))) (qsort c (buf es))),
             offset = length (concat (map (take (unat (dat_size es))) (qsort c (buf es))))\<rparr>"
    using buf_write_append [of sys_mkstemp "qsort c (buf es)" "unat (dat_size es)"]
    by (simp add: sys_mkstemp_def)
  then show ?thesis
    using assms(1,2,3) by (simp add: buf_flush_def sys_lseek_set_def run_of_def)
qed

lemma map_take_id: "\<forall>d\<in>set xs. length d = n \<Longrightarrow> map (take n) xs = xs"
  by (induction xs) simp_all

lemma buf_flush_empty: "buf es = [] \<Longrightarrow> buf_flush es = Inr es"
  by (simp add: buf_flush_def)

lemma run_of_rest:
  assumes "0 < n" "\<forall>d\<in>set ds. length d = n"
  shows "blk_rest n (run_of c n p ds) = qsort c ds"
proof -
  have "map (take n) (qsort c ds) = qsort c ds"
    using assms(2) by (simp add: set_qsort map_take_id)
  moreover have "\<forall>d\<in>set (qsort c ds). length d = n" using assms(2) by (simp add: set_qsort)
  ultimately show ?thesis using assms(1) by (simp add: blk_rest_def run_of_def chunks_concat)
qed

lemma run_of_new:
  assumes t: "cmp_total_order c" and "0 < n" "\<forall>d\<in>set ds. length d = n" "ds \<noteq> []"
  shows "run_new c n (run_of c n p ds)"
proof -
  have r: "blk_rest n (run_of c n p ds) = qsort c ds" using assms(2,3) by (rule run_of_rest)
  have m: "map (take n) (qsort c ds) = qsort c ds"
    using assms(3) by (simp add: set_qsort map_take_id)
  have l: "\<forall>d\<in>set (qsort c ds). length d = n" using assms(3) by (simp add: set_qsort)
  have "blk_whole n (run_of c n p ds)"
    using assms(2) l by (simp add: blk_whole_def run_of_def m chunks_concat)
  moreover have "qsort c ds \<noteq> []" using assms(4) length_qsort [of c ds] by auto
  ultimately show ?thesis
    using r sorted_qsort [OF t] by (simp add: run_new_def) (simp add: run_of_def)
qed

lemma hts_expand_fields [simp]:
  "dat_size (hts_expand k es) = dat_size es" "mem (hts_expand k es) = mem es"
  "max_mem (hts_expand k es) = max_mem es" "tmp_prefix (hts_expand k es) = tmp_prefix es"
  "cmp (hts_expand k es) = cmp es" "buf (hts_expand k es) = buf es"
  "blk (hts_expand k es) = blk es" "tmp_dat (hts_expand k es) = tmp_dat es"
  "bhp (hts_expand k es) = bhp es"
  by (simp_all add: hts_expand_def)

lemma hts_expand_alloc:
  "buf_null es \<longrightarrow> mbuf es = 0 \<Longrightarrow> \<not> buf_null (hts_expand (Suc k) es)"
  by (auto simp: hts_expand_def)

lemma push_inv_flush:
  assumes t: "cmp_total_order c" and inv: "push_inv c n es"
  shows "\<exists>es'. buf_flush es = Inr es' \<and> push_inv c n es' \<and> stored n es' = stored n es \<and>
           buf es' = [] \<and> dat_size es' = dat_size es \<and> max_mem es' = max_mem es \<and>
           bhp es' = bhp es"
proof (cases "buf es = []")
  case True
  then show ?thesis using inv by (simp add: buf_flush_empty)
next
  case False
  obtain p where p: "tmp_prefix es = Some p" using inv by (auto simp: push_inv_def)
  have c: "cmp es = Some c" and n: "unat (dat_size es) = n" and pos: "0 < n"
    and len: "\<forall>d\<in>set (buf es). length d = n"
    using inv by (simp_all add: push_inv_def)
  have eq: "buf_flush es = Inr (es\<lparr>blk := blk es @ [run_of c n p (buf es)], buf := [], mem := 0\<rparr>)"
    using buf_flush_eq [OF c p False] len n by simp
  have "run_new c n (run_of c n p (buf es))" using run_of_new [OF t pos len False] .
  then have "push_inv c n (es\<lparr>blk := blk es @ [run_of c n p (buf es)], buf := [], mem := 0\<rparr>)"
    using inv by (simp add: push_inv_def)
  moreover have "stored n (es\<lparr>blk := blk es @ [run_of c n p (buf es)], buf := [], mem := 0\<rparr>) = stored n es"
    by (simp add: stored_def run_of_rest [OF pos len] mset_qsort)
  ultimately show ?thesis using eq by simp
qed

lemma push_inv_push:
  assumes t: "cmp_total_order c" and inv: "push_inv c n es" and d: "length d = n"
  shows "\<exists>es'. extsort_push es d = Inr es' \<and> push_inv c n es' \<and>
           stored n es' = add_mset d (stored n es) \<and> bhp es' = bhp es"
proof -
  obtain es1 where f: "buf_flush es = Inr es1" and i1: "push_inv c n es1"
    and s1: "stored n es1 = stored n es" and b1: "bhp es1 = bhp es"
    using push_inv_flush [OF t inv] by blast
  define es0 where "es0 = (if buf es \<noteq> [] \<and> max_mem es < mem es + push_delta (dat_size es) then es1 else es)"
  have i0: "push_inv c n es0" and s0: "stored n es0 = stored n es" and b0: "bhp es0 = bhp es"
    using i1 s1 inv b1 by (simp_all add: es0_def)
  define es1' where
    "es1' = hts_expand (Suc (length (buf es0))) (es0\<lparr>mem := mem es0 + push_delta (dat_size es)\<rparr>)"
  have "buf_null (es0\<lparr>mem := mem es0 + push_delta (dat_size es)\<rparr>) \<longrightarrow>
        mbuf (es0\<lparr>mem := mem es0 + push_delta (dat_size es)\<rparr>) = 0"
    using i0 by (simp add: push_inv_def)
  then have a: "\<not> buf_null es1'" unfolding es1'_def by (rule hts_expand_alloc)
  have "extsort_push es d = Inr (es1'\<lparr>buf := buf es0 @ [d]\<rparr>)"
  proof (cases "buf es \<noteq> [] \<and> max_mem es < mem es + push_delta (dat_size es)")
    case True
    then have "es0 = es1" unfolding es0_def by (rule if_P)
    then show ?thesis using f a True by (simp add: extsort_push_def es1'_def Let_def)
  next
    case False
    then have "es0 = es" unfolding es0_def by (rule if_not_P)
    then show ?thesis using a False by (auto simp: extsort_push_def es1'_def Let_def)
  qed
  moreover have "push_inv c n (es1'\<lparr>buf := buf es0 @ [d]\<rparr>)"
    using i0 d a by (simp add: push_inv_def es1'_def)
  moreover have "stored n (es1'\<lparr>buf := buf es0 @ [d]\<rparr>) = add_mset d (stored n es)"
    using s0 by (simp add: stored_def es1'_def)
  moreover have "bhp (es1'\<lparr>buf := buf es0 @ [d]\<rparr>) = bhp es"
    using b0 by (simp add: es1'_def)
  ultimately show ?thesis by blast
qed

lemma push_inv_push_all:
  assumes t: "cmp_total_order c"
  shows "push_inv c n es \<Longrightarrow> \<forall>d\<in>set ds. length d = n \<Longrightarrow>
         \<exists>es'. push_all es ds = Inr es' \<and> push_inv c n es' \<and>
           stored n es' = stored n es + mset ds \<and> bhp es' = bhp es"
proof (induction ds arbitrary: es)
  case Nil
  then show ?case by simp
next
  case (Cons d ds)
  obtain es1 where p: "extsort_push es d = Inr es1" and i1: "push_inv c n es1"
    and s1: "stored n es1 = add_mset d (stored n es)" and b1: "bhp es1 = bhp es"
    using push_inv_push [OF t Cons.prems(1), of d] Cons.prems(2) by auto
  obtain es2 where "push_all es1 ds = Inr es2" "push_inv c n es2"
    "stored n es2 = stored n es1 + mset ds" "bhp es2 = bhp es1"
    using Cons.IH [OF i1] Cons.prems(2) by auto
  then show ?case using p s1 b1 by simp
qed

lemma khp_insert_set: "set (khp_insert lt h x) = insert x (set h)"
  using mset_khp_insert [of lt h x] by (metis set_mset_mset set_mset_add_mset_insert)

lemma khp_insert_distinct: "distinct (khp_insert lt h x) = (x \<notin> set h \<and> distinct h)"
proof -
  have "mset (khp_insert lt h x) = mset (x # h)" by (simp add: mset_khp_insert)
  then have "distinct (khp_insert lt h x) = distinct (x # h)" by (rule mset_eq_imp_distinct_iff)
  then show ?thesis by simp
qed

lemma set_butlast_root:
  assumes "distinct h" "h \<noteq> []"
  shows "set ((butlast h)[0 := last h]) = set h - {h ! 0}"
proof (cases h)
  case Nil
  then show ?thesis using assms(2) by simp
next
  case (Cons x xs)
  show ?thesis
  proof (cases "xs = []")
    case True
    then show ?thesis using Cons by simp
  next
    case False
    have "set (last xs # butlast xs) = set (butlast xs @ [last xs])" by simp
    also have "\<dots> = set xs" by (simp only: append_butlast_last_id [OF False])
    finally have "set (last xs # butlast xs) = set xs" .
    then show ?thesis using Cons False assms(1) by simp
  qed
qed

lemma khp_delete_set:
  assumes "distinct h" "h \<noteq> []"
  shows "set (khp_delete lt h) = set h - {h ! 0}"
proof -
  have "mset (khp_delete lt h) = mset ((butlast h)[0 := last h])"
    using mset_khp_delete [OF assms(2)] mset_butlast_root [OF assms(2)] by simp
  then have "set (khp_delete lt h) = set ((butlast h)[0 := last h])" by (rule mset_eq_setD)
  then show ?thesis using set_butlast_root [OF assms] by simp
qed

lemma khp_delete_distinct:
  assumes "distinct h"
  shows "distinct (khp_delete lt h)"
proof (cases "h = []")
  case True
  then show ?thesis by (simp add: khp_delete_def)
next
  case False
  have "h ! 0 \<in># mset h" using False by simp
  then have "mset (h ! 0 # khp_delete lt h) = mset h"
    using mset_khp_delete [OF False, of lt] by simp
  then have "distinct (h ! 0 # khp_delete lt h) = distinct h" by (rule mset_eq_imp_distinct_iff)
  then show ?thesis using assms by simp
qed

lemma sum_list_map_update:
  fixes f :: "'a \<Rightarrow> 'b multiset"
  shows "i < length xs \<Longrightarrow>
         sum_list (map f (xs[i := y])) + f (xs ! i) = sum_list (map f xs) + f y"
proof (induction xs arbitrary: i)
  case Nil
  then show ?case by simp
next
  case (Cons x xs)
  show ?case
  proof (cases i)
    case 0
    then show ?thesis by (simp add: ac_simps)
  next
    case (Suc k)
    then have "sum_list (map f (xs[k := y])) + f (xs ! k) = sum_list (map f xs) + f y"
      using Cons by simp
    then show ?thesis using Suc by (simp add: ac_simps)
  qed
qed

subsection \<open>The loop of \<^verbatim>\<open>extsort_sort\<close>\<close>

lemma ucast_ret_nonzero:
  fixes n :: size_t
  assumes "0 < unat n" "unat n < 2 ^ 32"
  shows "(ucast n :: 32 word) \<noteq> 0"
proof
  assume "(ucast n :: 32 word) = 0"
  then have "unat (ucast n :: 32 word) = 0" by simp
  then have "unat n mod 2 ^ 32 = 0" by (simp add: unsigned_ucast_eq take_bit_eq_mod)
  then show False using assms by simp
qed

lemma blk_fd_same: "fd b = Some f \<Longrightarrow> b\<lparr>fd := Some f\<rparr> = b"
  by (cases b) simp

lemma file_offset_same: "offset f = k \<Longrightarrow> f\<lparr>offset := k\<rparr> = f"
  by (cases f) simp

lemma blk_is_smaller_update:
  "x \<noteq> i \<Longrightarrow> y \<noteq> i \<Longrightarrow> blk_is_smaller c (bs[i := b]) x y = blk_is_smaller c bs x y"
  by (simp add: blk_is_smaller_def)

lemma blk_is_smaller_agree:
  "i \<notin> set h \<Longrightarrow>
   \<forall>x\<in>set h. \<forall>y\<in>set h. blk_is_smaller c (bs[i := b]) x y = blk_is_smaller c bs x y"
proof (intro ballI)
  fix x y assume "i \<notin> set h" "x \<in> set h" "y \<in> set h"
  then have "x \<noteq> i" "y \<noteq> i" by auto
  then show "blk_is_smaller c (bs[i := b]) x y = blk_is_smaller c bs x y"
    by (rule blk_is_smaller_update)
qed

lemma sort_step:
  assumes t: "cmp_total_order c" and inv: "sort_inv c n i es" and i: "i < length (blk es)"
  shows "\<exists>es1. (\<forall>idx. sort_loop es (i # idx) = sort_loop es1 idx) \<and> sort_inv c n (Suc i) es1 \<and>
           length (blk es1) = length (blk es) \<and> loop_pending n (Suc i) es1 = loop_pending n i es"
proof -
  have c: "cmp es = Some c" and n: "unat (dat_size es) = n" and pos: "0 < n" and lt: "n < 2 ^ 32"
    and tl: "length (tmp_dat es) = n"
    using inv by (simp_all add: sort_inv_def)
  obtain h where h: "bhp es = Some h" and dh: "distinct h"
    and sh: "set h = {j. j < i \<and> fd (blk es ! j) \<noteq> None}"
    and oh: "khp_ordered (blk_is_smaller c (blk es)) h"
    using inv by (auto simp: sort_inv_def heap_inv_def split: option.splits)
  define b where "b = blk es ! i"
  have rn: "run_new c n b" using inv i by (simp add: sort_inv_def b_def)
  obtain f where f: "fd b = Some f" and off: "offset f = 0" using rn by (auto simp: run_new_def)
  obtain r rs where rest: "blk_rest n b = r # rs"
    using rn by (cases "blk_rest n b") (auto simp: run_new_def)
  have wh: "blk_whole n b" and lb: "length (dat b) = n" and so: "sorted_wrt (cmp_le c) (r # rs)"
    using rn rest by (simp_all add: run_new_def)
  define b' where "b' = b\<lparr>fd := Some (f\<lparr>offset := offset f + n\<rparr>), dat := r\<rparr>"
  have rd: "blk_read (dat_size es) b = Inr (dat_size es, b')"
    using blk_read_data(1) [of b f "dat_size es" r rs] f pos wh rest lb n by (simp add: b'_def)
  have rest': "blk_rest n b' = rs"
    using blk_read_data(2) [of b f "dat_size es" r rs] f pos wh rest lb n by (simp add: b'_def)
  have wh': "blk_whole n b'"
    using blk_read_data(3) [of b f "dat_size es" r rs] f pos wh rest lb n by (simp add: b'_def)
  have fd': "fd b' \<noteq> None" and dat': "dat b' = r" by (simp_all add: b'_def)
  have "r \<in> set (chunks n (drop (offset f) (content f)))"
    using rest f by (simp add: blk_rest_def)
  then have lr: "length r = n" by (rule length_chunks_elem)
  define bs' where "bs' = (blk es)[i := b']"
  define es1 where "es1 = es\<lparr>blk := bs', bhp := Some (khp_insert (blk_is_smaller c bs') h i)\<rparr>"
  have nz: "(ucast (dat_size es) :: 32 word) \<noteq> 0"
    using ucast_ret_nonzero [of "dat_size es"] n pos lt by simp
  have step: "sort_loop es (i # idx) = sort_loop es1 idx" for idx
    using f off rd nz c h
    by (simp add: b_def [symmetric] sys_lseek_set_def file_offset_same blk_fd_same es1_def bs'_def)
  have inh: "i \<notin> set h" using sh by simp
  have agree: "\<forall>x\<in>set h. \<forall>y\<in>set h. blk_is_smaller c bs' x y = blk_is_smaller c (blk es) x y"
    unfolding bs'_def using inh by (rule blk_is_smaller_agree)
  have "khp_ordered (blk_is_smaller c bs') h" using khp_ordered_cong [OF oh agree] .
  then have o1: "khp_ordered (blk_is_smaller c bs') (khp_insert (blk_is_smaller c bs') h i)"
    using khp_insert_ordered [OF weak_order_blk_is_smaller [OF t]] by blast
  have s1: "set (khp_insert (blk_is_smaller c bs') h i) = {j. j < Suc i \<and> fd (bs' ! j) \<noteq> None}"
    using sh fd' i by (auto simp: khp_insert_set bs'_def nth_list_update less_Suc_eq)
  have hi: "heap_inv c (Suc i) es1"
    using o1 s1 dh inh by (simp add: heap_inv_def es1_def khp_insert_distinct)
  have ok: "\<forall>j<Suc i. run_ok c n (blk es1 ! j)"
  proof (intro allI impI)
    fix j assume j: "j < Suc i"
    show "run_ok c n (blk es1 ! j)"
    proof (cases "j = i")
      case True
      then show ?thesis using i wh' lr so rest' dat' by (simp add: es1_def bs'_def run_ok_def)
    next
      case False
      then show ?thesis using j inv by (simp add: es1_def bs'_def sort_inv_def)
    qed
  qed
  have new: "\<forall>j. Suc i \<le> j \<and> j < length (blk es1) \<longrightarrow> run_new c n (blk es1 ! j)"
    using inv by (simp add: es1_def bs'_def sort_inv_def)
  have inv1: "sort_inv c n (Suc i) es1"
    using c n pos lt tl i hi ok new
    by (simp add: sort_inv_def) (simp add: es1_def bs'_def)
  have tk: "take (Suc i) bs' = take i (blk es) @ [b']"
    using i by (simp add: bs'_def take_Suc_conv_app_nth)
  have dr: "drop (Suc i) bs' = drop (Suc i) (blk es)" by (simp add: bs'_def)
  have dr0: "drop i (blk es) = b # drop (Suc i) (blk es)"
    using i by (simp add: b_def Cons_nth_drop_Suc)
  have pb: "blk_pending n b' = r # rs" using rest' by (simp add: blk_pending_def b'_def)
  have lp: "loop_pending n (Suc i) es1 = loop_pending n i es"
    unfolding loop_pending_def using tk dr dr0 pb rest by (simp add: es1_def)
  show ?thesis using step inv1 lp by (intro exI [of _ es1]) (simp add: es1_def bs'_def)
qed

lemma sort_loop_inv:
  assumes t: "cmp_total_order c"
  shows "sort_inv c n i es \<Longrightarrow> k = length (blk es) - i \<Longrightarrow>
         \<exists>es'. sort_loop es [i..<length (blk es)] = Inr es' \<and> merge_inv c n es' \<and>
           pending n es' = loop_pending n i es"
proof (induction k arbitrary: i es)
  case 0
  then have "i = length (blk es)" by (simp add: sort_inv_def)
  then show ?case using 0 by (simp add: merge_inv_def pending_def loop_pending_def)
next
  case (Suc k)
  then have i: "i < length (blk es)" by simp
  obtain es1 where st: "\<And>idx. sort_loop es (i # idx) = sort_loop es1 idx"
    and i1: "sort_inv c n (Suc i) es1" and l1: "length (blk es1) = length (blk es)"
    and p1: "loop_pending n (Suc i) es1 = loop_pending n i es"
    using sort_step [OF t Suc.prems(1) i] by blast
  have "k = length (blk es1) - Suc i" using Suc.prems(2) l1 by simp
  then obtain es' where "sort_loop es1 [Suc i..<length (blk es1)] = Inr es'" "merge_inv c n es'"
    "pending n es' = loop_pending n (Suc i) es1"
    using Suc.IH [OF i1] by blast
  moreover have "[i..<length (blk es)] = i # [Suc i..<length (blk es1)]"
    using i l1 by (simp add: upt_conv_Cons)
  ultimately show ?case using st p1 by simp
qed

subsection \<open>The heap minimum in the retrieval phase\<close>

lemma sort_inv_sort:
  assumes t: "cmp_total_order c" and inv: "push_inv c n es" and lt: "n < 2 ^ 32"
  shows "\<exists>es'. extsort_sort es = Inr es' \<and> merge_inv c n es' \<and> pending n es' = stored n es"
proof -
  obtain es1 where f: "buf_flush es = Inr es1" and i1: "push_inv c n es1"
    and s1: "stored n es1 = stored n es" and b1: "buf es1 = []"
    using push_inv_flush [OF t inv] by blast
  define es2 where "es2 = es1\<lparr>buf_null := True, buf := [], bhp := Some []\<rparr>"
  have "heap_inv c 0 es2" by (simp add: heap_inv_def es2_def khp_ordered_def)
  then have i2: "sort_inv c n 0 es2"
    using i1 lt by (simp add: sort_inv_def push_inv_def es2_def)
  have "loop_pending n 0 es2 = stored n es1"
    using b1 by (simp add: loop_pending_def stored_def es2_def)
  moreover obtain es' where "sort_loop es2 [0..<length (blk es2)] = Inr es'" "merge_inv c n es'"
    "pending n es' = loop_pending n 0 es2"
    using sort_loop_inv [OF t i2 refl] by blast
  moreover have "extsort_sort es = sort_loop es2 [0..<length (blk es2)]"
    using f by (simp add: extsort_sort_def es2_def)
  ultimately show ?thesis using s1 by simp
qed

lemma in_sum_list_mset:
  fixes f :: "'a \<Rightarrow> 'b multiset"
  shows "x \<in># sum_list (map f xs) \<longleftrightarrow> (\<exists>j<length xs. x \<in># f (xs ! j))"
proof (induction xs)
  case Nil
  then show ?case by simp
next
  case (Cons y ys)
  show ?case
  proof
    assume "x \<in># sum_list (map f (y # ys))"
    then have "x \<in># f y \<or> (\<exists>j<length ys. x \<in># f (ys ! j))" using Cons by simp
    then show "\<exists>j<length (y # ys). x \<in># f ((y # ys) ! j)"
    proof
      assume "x \<in># f y"
      then have "0 < length (y # ys) \<and> x \<in># f ((y # ys) ! 0)" by simp
      then show ?thesis by blast
    next
      assume "\<exists>j<length ys. x \<in># f (ys ! j)"
      then obtain j where "j < length ys" "x \<in># f (ys ! j)" by blast
      then have "Suc j < length (y # ys) \<and> x \<in># f ((y # ys) ! Suc j)" by simp
      then show ?thesis by blast
    qed
  next
    assume "\<exists>j<length (y # ys). x \<in># f ((y # ys) ! j)"
    then obtain j where j: "j < length (y # ys)" "x \<in># f ((y # ys) ! j)" by blast
    show "x \<in># sum_list (map f (y # ys))"
    proof (cases j)
      case 0
      then show ?thesis using j by simp
    next
      case (Suc k)
      then have "k < length ys \<and> x \<in># f (ys ! k)" using j by simp
      then show ?thesis using Cons by auto
    qed
  qed
qed

lemma in_pending:
  "x \<in># pending n es \<longleftrightarrow> (\<exists>j<length (blk es). x \<in> set (blk_pending n (blk es ! j)))"
  unfolding pending_def by (subst in_sum_list_mset) simp

lemma heap_root_min:
  assumes t: "cmp_total_order c" and inv: "merge_inv c n es"
    and h: "bhp es = Some h" "h \<noteq> []"
  shows "h ! 0 < length (blk es)" and "fd (blk es ! (h ! 0)) \<noteq> None"
    and "\<forall>j<length (blk es). \<forall>x\<in>set (blk_pending n (blk es ! j)).
           cmp_le c (dat (blk es ! (h ! 0))) x"
proof -
  have sh: "set h = {j. j < length (blk es) \<and> fd (blk es ! j) \<noteq> None}"
    and oh: "khp_ordered (blk_is_smaller c (blk es)) h"
    using inv h by (simp_all add: merge_inv_def sort_inv_def heap_inv_def)
  have "h ! 0 \<in> set h" using h(2) by simp
  then show "h ! 0 < length (blk es)" and "fd (blk es ! (h ! 0)) \<noteq> None"
    using sh by simp_all
  show "\<forall>j<length (blk es). \<forall>x\<in>set (blk_pending n (blk es ! j)).
           cmp_le c (dat (blk es ! (h ! 0))) x"
  proof (intro allI impI ballI)
    fix j x assume j: "j < length (blk es)" and x: "x \<in> set (blk_pending n (blk es ! j))"
    have op: "fd (blk es ! j) \<noteq> None"
      using x by (cases "fd (blk es ! j)") (simp_all add: blk_pending_def)
    then have "j \<in> set h" using sh j by simp
    then obtain m where m: "m < length h" "h ! m = j" by (auto simp: in_set_conv_nth)
    have "\<not> blk_is_smaller c (blk es) (h ! m) (h ! 0)"
      using khp_ordered_root [OF weak_order_blk_is_smaller [OF t] oh m(1)] .
    then have le0: "cmp_le c (dat (blk es ! (h ! 0))) (dat (blk es ! j))"
      using m(2) by (simp add: blk_is_smaller_def cmp_not_less [OF t])
    have "run_ok c n (blk es ! j)" using inv j by (simp add: merge_inv_def sort_inv_def)
    then have so: "sorted_wrt (cmp_le c) (dat (blk es ! j) # blk_rest n (blk es ! j))"
      using op by (simp add: run_ok_def)
    have "x = dat (blk es ! j) \<or> x \<in> set (blk_rest n (blk es ! j))"
      using x op by (cases "fd (blk es ! j)") (simp_all add: blk_pending_def)
    then show "cmp_le c (dat (blk es ! (h ! 0))) x"
    proof
      assume "x = dat (blk es ! j)"
      then show ?thesis using le0 by simp
    next
      assume "x \<in> set (blk_rest n (blk es ! j))"
      then have "cmp_le c (dat (blk es ! j)) x" using so by simp
      then show ?thesis using cmp_le_trans [OF t le0] by simp
    qed
  qed
qed

lemma pending_empty:
  assumes inv: "merge_inv c n es" and h: "bhp es = Some []"
  shows "pending n es = {#}"
proof -
  have "{j. j < length (blk es) \<and> fd (blk es ! j) \<noteq> None} = {}"
    using inv h by (simp add: merge_inv_def sort_inv_def heap_inv_def)
  then have "\<forall>j<length (blk es). blk_pending n (blk es ! j) = []"
    by (auto simp: blk_pending_def split: option.splits)
  then have "\<forall>x. x \<notin># pending n es" by (simp add: in_pending)
  then show ?thesis by (simp add: multiset_eq_iff not_in_iff)
qed

subsection \<open>One call of \<^verbatim>\<open>extsort_shift\<close>\<close>

lemma blk_rest_dat [simp]: "blk_rest n (b\<lparr>dat := x\<rparr>) = blk_rest n b"
  by (simp add: blk_rest_def)

lemma blk_whole_dat [simp]: "blk_whole n (b\<lparr>dat := x\<rparr>) = blk_whole n b"
  by (simp add: blk_whole_def)

lemma all_nth_update:
  "\<forall>j<length xs. P (xs ! j) \<Longrightarrow> P y \<Longrightarrow> \<forall>j<length (xs[i := y]). P (xs[i := y] ! j)"
proof (intro allI impI)
  fix j assume a: "\<forall>j<length xs. P (xs ! j)" "P y" "j < length (xs[i := y])"
  show "P (xs[i := y] ! j)" using a by (cases "j = i") simp_all
qed

lemma merge_invI:
  "cmp es = Some c \<Longrightarrow> unat (dat_size es) = n \<Longrightarrow> 0 < n \<Longrightarrow> n < 2 ^ 32 \<Longrightarrow>
   length (tmp_dat es) = n \<Longrightarrow> heap_inv c (length (blk es)) es \<Longrightarrow>
   \<forall>j<length (blk es). run_ok c n (blk es ! j) \<Longrightarrow> merge_inv c n es"
  by (auto simp: merge_inv_def sort_inv_def)

lemma shift_step:
  assumes t: "cmp_total_order c" and inv: "merge_inv c n es"
    and h: "bhp es = Some h" "h \<noteq> []"
  shows "\<exists>es'. extsort_shift es = Inr (Some (dat (blk es ! (h ! 0))), es') \<and>
           merge_inv c n es' \<and>
           pending n es = add_mset (dat (blk es ! (h ! 0))) (pending n es')"
proof -
  have c: "cmp es = Some c" and n: "unat (dat_size es) = n" and pos: "0 < n" and lt: "n < 2 ^ 32"
    and tl: "length (tmp_dat es) = n"
    using inv by (simp_all add: merge_inv_def sort_inv_def)
  have dh: "distinct h"
    and sh: "set h = {j. j < length (blk es) \<and> fd (blk es ! j) \<noteq> None}"
    and oh: "khp_ordered (blk_is_smaller c (blk es)) h"
    using inv h by (simp_all add: merge_inv_def sort_inv_def heap_inv_def)
  have ok: "\<forall>j<length (blk es). run_ok c n (blk es ! j)"
    using inv by (simp add: merge_inv_def sort_inv_def)
  define i where "i = h ! 0"
  define b where "b = blk es ! i"
  define b1 where "b1 = b\<lparr>dat := tmp_dat es\<rparr>"
  define bs1 where "bs1 = (blk es)[i := b1]"
  define h' where "h' = khp_delete (blk_is_smaller c bs1) h"
  have ih: "i \<in> set h" using h(2) by (simp add: i_def)
  then have il: "i < length (blk es)" and op: "fd b \<noteq> None" using sh by (simp_all add: b_def)
  then obtain f where f: "fd b = Some f" by blast
  have rb: "run_ok c n b" using ok il by (simp add: b_def)
  then have wh: "blk_whole n b" and lb: "length (dat b) = n"
    and so: "sorted_wrt (cmp_le c) (dat b # blk_rest n b)"
    using op by (simp_all add: run_ok_def)
  have bs1i: "bs1 ! i = b1" using il by (simp add: bs1_def)
  have sh_eq: "extsort_shift es =
     (case blk_read (dat_size es) b1 of
        Inl e \<Rightarrow> Inl e
      | Inr (ret, b2) \<Rightarrow>
          Inr (Some (dat b),
               es\<lparr>tmp_dat := dat b, blk := bs1[i := b2],
                  bhp := Some (if (ucast ret :: 32 word) \<noteq> 0
                               then khp_insert (blk_is_smaller c (bs1[i := b2])) h' i
                               else h')\<rparr>))"
    unfolding h'_def bs1_def b1_def b_def i_def
    using h c il [unfolded i_def]
    by (simp add: extsort_shift_def Let_def)
  have upd: "bs1[i := x] = (blk es)[i := x]" for x by (simp add: bs1_def)
  \<comment> \<open>the heap after the deletion\<close>
  define g where "g = (butlast h)[0 := last h]"
  have sg: "set g = set h - {i}" using set_butlast_root [OF dh h(2)] by (simp add: g_def i_def)
  then have "i \<notin> set g" by simp
  then have "\<forall>x\<in>set g. \<forall>y\<in>set g. blk_is_smaller c bs1 x y = blk_is_smaller c (blk es) x y"
    unfolding bs1_def by (rule blk_is_smaller_agree)
  then have o1: "khp_ordered (blk_is_smaller c bs1) h'"
    unfolding h'_def g_def
    by (rule khp_delete_ordered [OF weak_order_blk_is_smaller [OF t] oh])
  have s1: "set h' = set h - {i}" using khp_delete_set [OF dh h(2)] by (simp add: h'_def i_def)
  have d1: "distinct h'" using khp_delete_distinct [OF dh] by (simp add: h'_def)
  have ih': "i \<notin> set h'" using s1 by simp
  have o2: "khp_ordered (blk_is_smaller c (bs1[i := x])) h'" for x
    using khp_ordered_cong [OF o1 blk_is_smaller_agree [OF ih']] .
  show ?thesis
  proof (cases "blk_rest n b")
    case Nil
    have rd: "blk_read (dat_size es) b1 = Inr (0, b1\<lparr>fd := None\<rparr>)"
      using blk_read_eof [of b1 f "dat_size es"] f pos wh Nil n by (simp add: b1_def)
    define es' where "es' = es\<lparr>tmp_dat := dat b, blk := bs1[i := b1\<lparr>fd := None\<rparr>], bhp := Some h'\<rparr>"
    have eq: "extsort_shift es = Inr (Some (dat b), es')"
      using rd by (simp add: sh_eq es'_def)
    have set': "set h' = {j. j < length (blk es') \<and> fd (blk es' ! j) \<noteq> None}"
      using s1 sh il by (auto simp: es'_def bs1_def nth_list_update)
    have hi: "heap_inv c (length (blk es')) es'"
      using d1 set' o2 [of "b1\<lparr>fd := None\<rparr>"] by (simp add: heap_inv_def) (simp add: es'_def)
    have "run_ok c n (b1\<lparr>fd := None\<rparr>)" by (simp add: run_ok_def)
    then have ok': "\<forall>j<length (blk es'). run_ok c n (blk es' ! j)"
      using all_nth_update [OF ok, of "b1\<lparr>fd := None\<rparr>" i] by (simp add: es'_def upd)
    have m: "merge_inv c n es'"
    proof (rule merge_invI)
      show "cmp es' = Some c" using c by (simp add: es'_def)
      show "unat (dat_size es') = n" using n by (simp add: es'_def)
      show "0 < n" using pos .
      show "n < 2 ^ 32" using lt .
      show "length (tmp_dat es') = n" using lb by (simp add: es'_def)
      show "heap_inv c (length (blk es')) es'" using hi .
      show "\<forall>j<length (blk es'). run_ok c n (blk es' ! j)" using ok' .
    qed
    have "pending n es' + mset (blk_pending n b) = pending n es + mset (blk_pending n (b1\<lparr>fd := None\<rparr>))"
      using sum_list_map_update [OF il, of "\<lambda>b. mset (blk_pending n b)" "b1\<lparr>fd := None\<rparr>"]
      by (simp add: pending_def es'_def upd b_def)
    then have "pending n es = add_mset (dat b) (pending n es')"
      using Nil f by (simp add: blk_pending_def)
    then show ?thesis using eq m by (auto simp: i_def b_def)
  next
    case (Cons r rs)
    define b2 where "b2 = b1\<lparr>fd := Some (f\<lparr>offset := offset f + n\<rparr>), dat := r\<rparr>"
    have f1: "fd b1 = Some f" and l1: "length (dat b1) \<le> n" using f tl by (simp_all add: b1_def)
    have w1: "blk_whole n b1" and r1: "blk_rest n b1 = r # rs" using wh Cons by (simp_all add: b1_def)
    have rd: "blk_read (dat_size es) b1 = Inr (dat_size es, b2)"
      using blk_read_data(1) [of b1 f "dat_size es" r rs] f1 pos w1 r1 l1 n by (simp add: b2_def)
    have rest2: "blk_rest n b2 = rs"
      using blk_read_data(2) [of b1 f "dat_size es" r rs] f1 pos w1 r1 l1 n by (simp add: b2_def)
    have wh2: "blk_whole n b2"
      using blk_read_data(3) [of b1 f "dat_size es" r rs] f1 pos w1 r1 l1 n by (simp add: b2_def)
    have fd2: "fd b2 \<noteq> None" and dat2: "dat b2 = r" by (simp_all add: b2_def)
    have "r \<in> set (chunks n (drop (offset f) (content f)))"
      using Cons f by (simp add: blk_rest_def)
    then have lr: "length r = n" by (rule length_chunks_elem)
    have nz: "(ucast (dat_size es) :: 32 word) \<noteq> 0"
      using ucast_ret_nonzero [of "dat_size es"] n pos lt by simp
    define es' where "es' = es\<lparr>tmp_dat := dat b, blk := bs1[i := b2],
        bhp := Some (khp_insert (blk_is_smaller c (bs1[i := b2])) h' i)\<rparr>"
    have eq: "extsort_shift es = Inr (Some (dat b), es')"
      using rd nz by (simp add: sh_eq es'_def)
    have o3: "khp_ordered (blk_is_smaller c (bs1[i := b2])) (khp_insert (blk_is_smaller c (bs1[i := b2])) h' i)"
      using khp_insert_ordered [OF weak_order_blk_is_smaller [OF t] o2] .
    have "insert i (set h') = set h" using s1 ih by auto
    then have set': "set (khp_insert (blk_is_smaller c (bs1[i := b2])) h' i) =
                     {j. j < length (blk es') \<and> fd (blk es' ! j) \<noteq> None}"
      using sh il fd2 by (auto simp: khp_insert_set es'_def bs1_def nth_list_update)
    have hi: "heap_inv c (length (blk es')) es'"
      using d1 ih' set' o3 by (simp add: heap_inv_def) (simp add: es'_def khp_insert_distinct)
    have "sorted_wrt (cmp_le c) (r # rs)" using so Cons by simp
    then have "run_ok c n b2" using wh2 lr rest2 dat2 by (simp add: run_ok_def)
    then have ok': "\<forall>j<length (blk es'). run_ok c n (blk es' ! j)"
      using all_nth_update [OF ok, of b2 i] by (simp add: es'_def upd)
    have m: "merge_inv c n es'"
    proof (rule merge_invI)
      show "cmp es' = Some c" using c by (simp add: es'_def)
      show "unat (dat_size es') = n" using n by (simp add: es'_def)
      show "0 < n" using pos .
      show "n < 2 ^ 32" using lt .
      show "length (tmp_dat es') = n" using lb by (simp add: es'_def)
      show "heap_inv c (length (blk es')) es'" using hi .
      show "\<forall>j<length (blk es'). run_ok c n (blk es' ! j)" using ok' .
    qed
    have "pending n es' + mset (blk_pending n b) = pending n es + mset (blk_pending n b2)"
      using sum_list_map_update [OF il, of "\<lambda>b. mset (blk_pending n b)" b2]
      by (simp add: pending_def es'_def upd b_def)
    then have "pending n es = add_mset (dat b) (pending n es')"
      using Cons f rest2 dat2 fd2 by (auto simp: blk_pending_def)
    then show ?thesis using eq m by (auto simp: i_def b_def)
  qed
qed

subsection \<open>Whole sessions\<close>

lemma shift_end: "bhp es = Some [] \<Longrightarrow> extsort_shift es = Inr (None, es)"
  by (simp add: extsort_shift_def)

lemma pending_root:
  assumes t: "cmp_total_order c" and inv: "merge_inv c n es" and h: "bhp es = Some h" "h \<noteq> []"
  shows "dat (blk es ! (h ! 0)) \<in># pending n es"
proof -
  have "h ! 0 < length (blk es)" and "fd (blk es ! (h ! 0)) \<noteq> None"
    using heap_root_min(1,2) [OF t inv h] .
  then have "h ! 0 < length (blk es) \<and> dat (blk es ! (h ! 0)) \<in> set (blk_pending n (blk es ! (h ! 0)))"
    by (auto simp: blk_pending_def)
  then show ?thesis unfolding in_pending by blast
qed

lemma merge_inv_bhp: "merge_inv c n es \<Longrightarrow> \<exists>h. bhp es = Some h"
  by (cases "bhp es") (simp_all add: merge_inv_def sort_inv_def heap_inv_def)

lemma shift_all_inv:
  assumes t: "cmp_total_order c"
  shows "merge_inv c n es \<Longrightarrow>
         \<exists>ds es'. shift_all k es = Inr (ds, es') \<and> merge_inv c n es' \<and>
           sorted_wrt (cmp_le c) ds \<and> pending n es = mset ds + pending n es' \<and>
           (size (pending n es) \<le> k \<longrightarrow> bhp es' = Some [])"
proof (induction k arbitrary: es)
  case 0
  obtain h where h: "bhp es = Some h" using merge_inv_bhp [OF 0] by blast
  have "size (pending n es) \<le> 0 \<longrightarrow> h = []"
  proof (intro impI, rule ccontr)
    assume "size (pending n es) \<le> 0" "h \<noteq> []"
    then show False using pending_root [OF t 0 h] by auto
  qed
  then show ?case using 0 h by simp
next
  case (Suc k)
  obtain h where h: "bhp es = Some h" using merge_inv_bhp [OF Suc.prems] by blast
  show ?case
  proof (cases "h = []")
    case True
    then show ?thesis using h Suc.prems by (simp add: shift_end)
  next
    case False
    define d where "d = dat (blk es ! (h ! 0))"
    obtain es1 where s: "extsort_shift es = Inr (Some d, es1)" and i1: "merge_inv c n es1"
      and p1: "pending n es = add_mset d (pending n es1)"
      using shift_step [OF t Suc.prems h False] by (auto simp: d_def)
    obtain ds es' where r: "shift_all k es1 = Inr (ds, es')" and i': "merge_inv c n es'"
      and so: "sorted_wrt (cmp_le c) ds" and p': "pending n es1 = mset ds + pending n es'"
      and e': "size (pending n es1) \<le> k \<longrightarrow> bhp es' = Some []"
      using Suc.IH [OF i1] by blast
    have "\<forall>x\<in>set ds. cmp_le c d x"
    proof
      fix x assume "x \<in> set ds"
      then have "x \<in># pending n es" using p1 p' by simp
      then obtain j where "j < length (blk es)" "x \<in> set (blk_pending n (blk es ! j))"
        unfolding in_pending by blast
      then show "cmp_le c d x" using heap_root_min(3) [OF t Suc.prems h False] by (simp add: d_def)
    qed
    then have "sorted_wrt (cmp_le c) (d # ds)" using so by simp
    moreover have "shift_all (Suc k) es = Inr (d # ds, es')" using s r by simp
    moreover have "pending n es = mset (d # ds) + pending n es'" using p1 p' by simp
    moreover have "size (pending n es) \<le> Suc k \<longrightarrow> bhp es' = Some []" using p1 e' by simp
    ultimately show ?thesis using i' by blast
  qed
qed

lemma extsort_set_keeps:
  "extsort_set pms es k = Inr es' \<Longrightarrow>
   buf es' = buf es \<and> blk es' = blk es \<and> mem es' = mem es \<and> bhp es' = bhp es \<and>
   mbuf es' = mbuf es \<and> buf_null es' = buf_null es"
  by (cases k) (auto simp: extsort_set_def init_tmp_prefix_def split: if_splits option.splits)

lemma set_all_keeps:
  "set_all pms es ks = Inr es' \<Longrightarrow>
   buf es' = buf es \<and> blk es' = blk es \<and> mem es' = mem es \<and> bhp es' = bhp es \<and>
   mbuf es' = mbuf es \<and> buf_null es' = buf_null es"
proof (induction ks arbitrary: es)
  case Nil
  then show ?case by simp
next
  case (Cons k ks)
  then obtain es1 where 1: "extsort_set pms es k = Inr es1" and 2: "set_all pms es1 ks = Inr es'"
    by (auto split: sum.splits)
  show ?case using extsort_set_keeps [OF 1] Cons.IH [OF 2] by simp
qed

lemma extsort_init_props:
  assumes "extsort_init es = Inr es'"
  shows "cmp es' \<noteq> None" "dat_size es' \<noteq> 0" "tmp_prefix es' \<noteq> None"
    "tmp_dat es' = replicate (unat (dat_size es')) 0"
    "buf es' = buf es" "blk es' = blk es" "mem es' = mem es" "bhp es' = bhp es"
    "mbuf es' = mbuf es" "buf_null es' = buf_null es"
  using assms by (auto simp: extsort_init_def init_tmp_prefix_def split: if_splits)

lemma extsort_open_props:
  assumes "extsort_open pms opts = Inr es"
  shows "cmp es \<noteq> None" "dat_size es \<noteq> 0" "tmp_prefix es \<noteq> None"
    "tmp_dat es = replicate (unat (dat_size es)) 0"
    "buf es = []" "blk es = []" "mem es = 0" "bhp es = None" "mbuf es = 0" "buf_null es"
proof -
  obtain es1 where 1: "set_all pms extsort_alloc opts = Inr es1" and 2: "extsort_init es1 = Inr es"
    using assms by (auto simp: extsort_open_def split: sum.splits)
  have k: "buf es1 = []" "blk es1 = []" "mem es1 = 0" "bhp es1 = None" "mbuf es1 = 0"
    "buf_null es1"
    using set_all_keeps [OF 1] by (simp_all add: extsort_alloc_def)
  show "cmp es \<noteq> None" "dat_size es \<noteq> 0" "tmp_prefix es \<noteq> None"
    "tmp_dat es = replicate (unat (dat_size es)) 0"
    using extsort_init_props(1-4) [OF 2] .
  show "buf es = []" "blk es = []" "mem es = 0" "bhp es = None" "mbuf es = 0" "buf_null es"
    using extsort_init_props(5-10) [OF 2] k by simp_all
qed

lemma open_push_inv:
  assumes "extsort_open pms opts = Inr es" "cmp es = Some c"
  shows "push_inv c (unat (dat_size es)) es" and "stored (unat (dat_size es)) es = {#}"
proof -
  note p = extsort_open_props [OF assms(1)]
  have "0 < unat (dat_size es)" using p(2) by (simp add: unat_gt_0)
  then show "push_inv c (unat (dat_size es)) es"
    using p assms(2) by (simp add: push_inv_def)
  show "stored (unat (dat_size es)) es = {#}" using p by (simp add: stored_def)
qed

lemma run_main:
  assumes t: "cmp_total_order c" and op: "extsort_open pms opts = Inr es" and c: "cmp es = Some c"
    and lt: "unat (dat_size es) < 2 ^ 32" and len: "\<forall>d\<in>set ds. length d = unat (dat_size es)"
  shows "\<exists>out es'. extsort_run es ds k = Inr (out, es') \<and> merge_inv c (unat (dat_size es)) es' \<and>
           sorted_wrt (cmp_le c) out \<and>
           mset ds = mset out + pending (unat (dat_size es)) es' \<and>
           (length ds \<le> k \<longrightarrow> bhp es' = Some [])"
proof -
  define n where "n = unat (dat_size es)"
  have i0: "push_inv c n es" and s0: "stored n es = {#}"
    using open_push_inv [OF op c] by (simp_all add: n_def)
  obtain es1 where 1: "push_all es ds = Inr es1" and i1: "push_inv c n es1"
    and s1: "stored n es1 = stored n es + mset ds"
    using push_inv_push_all [OF t i0] len by (auto simp: n_def)
  obtain es2 where 2: "extsort_sort es1 = Inr es2" and i2: "merge_inv c n es2"
    and s2: "pending n es2 = stored n es1"
    using sort_inv_sort [OF t i1] lt by (auto simp: n_def)
  obtain out es' where 3: "shift_all k es2 = Inr (out, es')" and i3: "merge_inv c n es'"
    and so: "sorted_wrt (cmp_le c) out" and p3: "pending n es2 = mset out + pending n es'"
    and e3: "size (pending n es2) \<le> k \<longrightarrow> bhp es' = Some []"
    using shift_all_inv [OF t i2] by blast
  have "extsort_run es ds k = Inr (out, es')" using 1 2 3 by (simp add: extsort_run_def)
  moreover have "mset ds = mset out + pending n es'" using s0 s1 s2 p3 by simp
  moreover have "length ds \<le> k \<longrightarrow> bhp es' = Some []"
    using e3 s0 s1 s2 by simp
  ultimately show ?thesis using i3 so by (simp add: n_def)
qed

subsection \<open>The memory estimate\<close>

lemma push_delta_exact:
  assumes "unat n + 8 < 2 ^ 31"
  shows "push_delta n = of_nat (unat n + 8)"
proof -
  define k where "k = unat n + 8"
  have "k < 2 ^ 31" using assms by (simp add: k_def)
  then have "int k < int (2 ^ 31)" by (simp only: of_nat_less_iff)
  then have k31: "int k < 2 ^ 31" by simp
  have "unat (8 :: size_t) + unat n < 2 ^ LENGTH(64)" using assms by simp
  then have "unat (8 + n) = unat (8 :: size_t) + unat n" by (rule unat_add_lem [THEN iffD1])
  then have "int (unat (8 + n)) = int (unat (8 :: size_t) + unat n)" by (rule arg_cong)
  then have 1: "uint (8 + n) = int k" by (simp add: k_def)
  have "uint (ucast (8 + n) :: 32 word) = take_bit 32 (uint (8 + n))"
    by (simp add: unsigned_ucast_eq)
  also have "\<dots> = int k"
    using k31 by (simp only: 1) (simp add: take_bit_int_eq_self)
  finally have 2: "uint (ucast (8 + n) :: 32 word) = int k" .
  have "sint (ucast (8 + n) :: 32 word) = signed_take_bit 31 (int k)"
    by (simp add: sint_uint 2)
  also have "\<dots> = int k" using k31 by (simp add: signed_take_bit_int_eq_self)
  finally have 3: "sint (ucast (8 + n) :: 32 word) = int k" .
  have "push_delta n = word_of_int (int k)" by (simp only: push_delta_def scast_eq 3)
  then show ?thesis by (simp add: k_def)
qed

lemma unat_push_delta:
  assumes "unat n + 8 < 2 ^ 31"
  shows "unat (push_delta n) = unat n + 8"
proof -
  define k where "k = unat n + 8"
  have "k < 2 ^ LENGTH(64)" using assms by (simp add: k_def)
  then have "unat (of_nat k :: size_t) = k" by (simp only: unat_of_nat mod_less)
  then show ?thesis using push_delta_exact [OF assms] by (simp add: k_def)
qed

lemma extsort_push_eq:
  assumes "cmp es = Some c" "tmp_prefix es = Some p"
    and "\<forall>r\<in>set (buf es). unat (dat_size es) \<le> length r"
    and "buf_null es \<longrightarrow> mbuf es = 0"
  shows "extsort_push es d =
         Inr (if buf es \<noteq> [] \<and> max_mem es < mem es + push_delta (dat_size es)
              then es\<lparr>blk := blk es @ [run_of c (unat (dat_size es)) p (buf es)],
                      mbuf := mbuf (hts_expand 1 es), buf_null := False,
                      buf := [d], mem := push_delta (dat_size es)\<rparr>
              else es\<lparr>mem := mem es + push_delta (dat_size es),
                      mbuf := mbuf (hts_expand (length (buf es) + 1) es), buf_null := False,
                      buf := buf es @ [d]\<rparr>)"
proof (cases "buf es \<noteq> [] \<and> max_mem es < mem es + push_delta (dat_size es)")
  case True
  then have "buf_flush es =
      Inr (es\<lparr>blk := blk es @ [run_of c (unat (dat_size es)) p (buf es)], buf := [], mem := 0\<rparr>)"
    using buf_flush_eq [OF assms(1,2) _ assms(3)] by simp
  then show ?thesis using True assms(4) by (auto simp: extsort_push_def hts_expand_def)
next
  case False
  then show ?thesis using assms(4) by (auto simp: extsort_push_def hts_expand_def)
qed

lemma push_budget_step:
  assumes inv: "budget_inv es" and d: "unat (dat_size es) \<le> length d"
  shows "\<exists>es'. extsort_push es d = Inr es' \<and> budget_inv es' \<and>
           dat_size es' = dat_size es \<and> max_mem es' = max_mem es \<and>
           (mem es' \<le> max_mem es' \<or> (length (buf es') = 1 \<and> max_mem es' < mem es')) \<and>
           (unat (dat_size es) + 8 < 2 ^ 31 \<and> unat (max_mem es) + unat (dat_size es) + 8 < 2 ^ 64 \<and>
            account_inv es \<longrightarrow> account_inv es')"
proof -
  obtain c p where c: "cmp es = Some c" and p: "tmp_prefix es = Some p"
    using inv by (auto simp: budget_inv_def)
  have len: "\<forall>r\<in>set (buf es). unat (dat_size es) \<le> length r"
    and m0: "buf es = [] \<longrightarrow> mem es = 0" and nl: "buf_null es \<longrightarrow> mbuf es = 0"
    using inv by (simp_all add: budget_inv_def)
  define dw where "dw = push_delta (dat_size es)"
  define es' where "es' =
    (if buf es \<noteq> [] \<and> max_mem es < mem es + dw
     then es\<lparr>blk := blk es @ [run_of c (unat (dat_size es)) p (buf es)],
             mbuf := mbuf (hts_expand 1 es), buf_null := False, buf := [d], mem := dw\<rparr>
     else es\<lparr>mem := mem es + dw, mbuf := mbuf (hts_expand (length (buf es) + 1) es),
             buf_null := False, buf := buf es @ [d]\<rparr>)"
  have eq: "extsort_push es d = Inr es'"
    using extsort_push_eq [OF c p len nl] by (simp add: es'_def dw_def)
  have keep: "dat_size es' = dat_size es" "max_mem es' = max_mem es"
    by (simp_all add: es'_def)
  have b': "budget_inv es'" using inv d by (simp add: budget_inv_def es'_def)
  have bound: "mem es' \<le> max_mem es' \<or> (length (buf es') = 1 \<and> max_mem es' < mem es')"
  proof (cases "buf es \<noteq> [] \<and> max_mem es < mem es + dw")
    case True
    then have "mem es' = dw" "length (buf es') = 1" "max_mem es' = max_mem es"
      by (simp_all add: es'_def)
    then show ?thesis by (simp add: linorder_not_le [symmetric])
  next
    case False
    show ?thesis
    proof (cases "buf es = []")
      case True
      then have "mem es' = dw" "length (buf es') = 1" "max_mem es' = max_mem es"
        using m0 by (simp_all add: es'_def)
      then show ?thesis by (simp add: linorder_not_le [symmetric])
    next
      case F2: False
      then have "\<not> max_mem es < mem es + dw" using False by simp
      moreover have "mem es' = mem es + dw" "max_mem es' = max_mem es"
        using False by (auto simp: es'_def)
      ultimately show ?thesis by (simp add: linorder_not_less)
    qed
  qed
  have acc: "account_inv es'"
    if r1: "unat (dat_size es) + 8 < 2 ^ 31"
      and r2: "unat (max_mem es) + unat (dat_size es) + 8 < 2 ^ 64"
      and a: "account_inv es"
  proof -
    define k where "k = unat (dat_size es) + 8"
    have dk: "unat dw = k" using unat_push_delta [OF r1] by (simp add: dw_def k_def)
    have am: "unat (mem es) = length (buf es) * k"
      using a unfolding account_inv_def k_def by (rule conjunct1)
    have ab: "unat (mem es) \<le> unat (max_mem es) \<or> length (buf es) \<le> 1"
      using a unfolding account_inv_def by (rule conjunct2)
    have kk: "k < 2 ^ 31" using r1 by (simp add: k_def)
    have nowrap: "unat (mem es) + unat dw < 2 ^ LENGTH(64)"
    proof (cases "unat (mem es) \<le> unat (max_mem es)")
      case True
      then show ?thesis using r2 dk by (simp add: k_def)
    next
      case False
      then have "length (buf es) \<le> 1" using ab by simp
      then have "unat (mem es) \<le> k" using am by (cases "length (buf es)") simp_all
      then show ?thesis using kk dk by simp
    qed
    then have sum: "unat (mem es + dw) = unat (mem es) + k"
      using dk by (simp add: unat_add_lem [THEN iffD1])
    show ?thesis
    proof (cases "buf es \<noteq> [] \<and> max_mem es < mem es + dw")
      case True
      then have "mem es' = dw" "length (buf es') = 1" by (simp_all add: es'_def)
      then show ?thesis using dk by (simp add: account_inv_def keep k_def)
    next
      case False
      have "unat (mem es') = length (buf es') * k"
        using False sum am by (auto simp: es'_def)
      moreover have "unat (mem es') \<le> unat (max_mem es') \<or> length (buf es') \<le> 1"
        using bound by (auto simp: word_le_nat_alt)
      ultimately show ?thesis by (simp add: account_inv_def keep k_def)
    qed
  qed
  show ?thesis using eq b' keep bound acc by blast
qed

lemma push_budget_all:
  "budget_inv es \<Longrightarrow> \<forall>d\<in>set ds. unat (dat_size es) \<le> length d \<Longrightarrow> ds \<noteq> [] \<Longrightarrow>
   \<exists>es'. push_all es ds = Inr es' \<and> dat_size es' = dat_size es \<and> max_mem es' = max_mem es \<and>
     (mem es' \<le> max_mem es' \<or> (length (buf es') = 1 \<and> max_mem es' < mem es')) \<and>
     (unat (dat_size es) + 8 < 2 ^ 31 \<and> unat (max_mem es) + unat (dat_size es) + 8 < 2 ^ 64 \<and>
      account_inv es \<longrightarrow> account_inv es')"
proof (induction ds arbitrary: es)
  case Nil
  then show ?case by simp
next
  case (Cons d ds)
  have dlen: "unat (dat_size es) \<le> length d" using Cons.prems(2) by simp
  obtain es1 where 1: "extsort_push es d = Inr es1" and b1: "budget_inv es1"
    and k1: "dat_size es1 = dat_size es" "max_mem es1 = max_mem es"
    and m1: "mem es1 \<le> max_mem es1 \<or> (length (buf es1) = 1 \<and> max_mem es1 < mem es1)"
    and a1: "unat (dat_size es) + 8 < 2 ^ 31 \<and> unat (max_mem es) + unat (dat_size es) + 8 < 2 ^ 64 \<and>
            account_inv es \<longrightarrow> account_inv es1"
    using push_budget_step [OF Cons.prems(1) dlen] by blast
  show ?case
  proof (cases "ds = []")
    case True
    then show ?thesis using 1 k1 m1 a1 by simp
  next
    case False
    have "\<forall>d\<in>set ds. unat (dat_size es1) \<le> length d" using Cons.prems(2) k1 by simp
    then obtain es' where "push_all es1 ds = Inr es'" "dat_size es' = dat_size es1"
      "max_mem es' = max_mem es1"
      "mem es' \<le> max_mem es' \<or> (length (buf es') = 1 \<and> max_mem es' < mem es')"
      "unat (dat_size es1) + 8 < 2 ^ 31 \<and> unat (max_mem es1) + unat (dat_size es1) + 8 < 2 ^ 64 \<and>
       account_inv es1 \<longrightarrow> account_inv es'"
      using Cons.IH [OF b1 _ False] by blast
    then show ?thesis using 1 k1 a1 by simp
  qed
qed

subsection \<open>The example caller\<close>

lemma cmp_total_order_cmp_byte: "cmp_total_order cmp_byte"
  unfolding cmp_total_order_def cmp_byte_def by (intro conjI allI impI) linarith+

lemma open_example:
  "extsort_open (\<lambda>s. 20) [DAT_SIZE 1, MAX_MEM ''20'', FUNC_CMP (Some cmp_byte)] = Inr es_example"
  by (simp add: extsort_open_def extsort_set_def extsort_alloc_def extsort_init_def
      init_tmp_prefix_def es_example_def)

lemma kroundup_small:
  "kroundup (Suc 0) = Suc 0" "kroundup (Suc (Suc 0)) = 2" "kroundup (Suc (Suc (Suc 0))) = 4"
proof -
  show 1: "kroundup (Suc 0) = Suc 0" by (subst kroundup.simps) simp
  show 2: "kroundup (Suc (Suc 0)) = 2" by (subst kroundup.simps) (simp add: 1)
  show "kroundup (Suc (Suc (Suc 0))) = 4" by (subst kroundup.simps) (simp add: 2)
qed

lemma cmp_le_eq: "cmp_le c = (\<lambda>a b. c a b \<le> 0)"
  by (simp add: cmp_le_def fun_eq_iff)

lemma chunks_run:
  "\<forall>d\<in>set ds. length d = n \<Longrightarrow> 0 < n \<Longrightarrow>
   chunks n (concat (map (take n) (qsort c ds))) = qsort c ds"
  using run_of_rest [of n ds c p] by (simp add: run_of_def blk_rest_def)

text \<open>
  Scenario A of the specification with records of one byte: 5, 3, 4, 1, 2 are pushed with
  a budget that holds two records, so three blocks are merged.
\<close>

lemma scenario_example:
  "map_sum id fst (extsort_run es_example [[5], [3], [4], [1], [2]] 6) =
   Inr [[1], [2], [3], [4], [5]]"
  by code_simp

subsection \<open>The budget within the range of \<^verbatim>\<open>int delta\<close>\<close>

text \<open>
  After any push of an opened session the running estimate \<^verbatim>\<open>es->mem\<close> is within the
  budget, or the buffer holds exactly the record just pushed. Where \<^verbatim>\<open>dat_size + 8\<close> fits
  the \<^verbatim>\<open>int delta\<close> and \<^verbatim>\<open>max_mem + dat_size + 8\<close> fits a \<^verbatim>\<open>size_t\<close>, the running
  estimate is the number of buffered records times \<^verbatim>\<open>dat_size + 8\<close>.
\<close>

lemma push_budget_in_range:
  assumes "extsort_open parse_mem_string opts = Inr es" and "ds \<noteq> []"
    and "\<forall>d\<in>set ds. unat (dat_size es) \<le> length d"
  shows "\<exists>es'. push_all es ds = Inr es' \<and> max_mem es' = max_mem es \<and>
           (mem es' \<le> max_mem es' \<or> (length (buf es') = 1 \<and> max_mem es' < mem es')) \<and>
           (unat (dat_size es) + 8 < 2 ^ 31 \<and> unat (max_mem es) + unat (dat_size es) + 8 < 2 ^ 64 \<longrightarrow>
              unat (mem es') = length (buf es') * (unat (dat_size es) + 8))"
proof -
  note p = extsort_open_props [OF assms(1)]
  have b: "budget_inv es" using p by (simp add: budget_inv_def)
  have a: "account_inv es" using p by (simp add: account_inv_def)
  obtain es' where 1: "push_all es ds = Inr es'"
    and k: "dat_size es' = dat_size es" "max_mem es' = max_mem es"
    and m: "mem es' \<le> max_mem es' \<or> (length (buf es') = 1 \<and> max_mem es' < mem es')"
    and ac: "unat (dat_size es) + 8 < 2 ^ 31 \<and> unat (max_mem es) + unat (dat_size es) + 8 < 2 ^ 64 \<and>
             account_inv es \<longrightarrow> account_inv es'"
    using push_budget_all [OF b assms(3,2)] by blast
  have "unat (dat_size es) + 8 < 2 ^ 31 \<and> unat (max_mem es) + unat (dat_size es) + 8 < 2 ^ 64 \<longrightarrow>
        unat (mem es') = length (buf es') * (unat (dat_size es) + 8)"
    using ac a k unfolding account_inv_def by metis
  then show ?thesis using 1 k m by blast
qed

text \<open>
  One push in the ingestion phase, in full: the test of the code decides between a flush
  into one new block and a plain append, and where \<^verbatim>\<open>dat_size + 8\<close> fits the \<^verbatim>\<open>int delta\<close>
  and the sum fits a \<^verbatim>\<open>size_t\<close> the test is the comparison of the numbers.
\<close>

lemma push_flush_rule_in_range:
  assumes "cmp es = Some c" and "tmp_prefix es = Some p"
    and "\<forall>r\<in>set (buf es). unat (dat_size es) \<le> length r"
    and "buf_null es \<longrightarrow> mbuf es = 0"
  shows "extsort_push es d =
           Inr (if buf es \<noteq> [] \<and> max_mem es < mem es + push_delta (dat_size es)
                then es\<lparr>blk := blk es @
                              [\<lparr>fd = Some \<lparr>content = concat (map (take (unat (dat_size es)))
                                                                (qsort c (buf es))),
                                           offset = 0\<rparr>,
                                fname = p, dat = replicate (unat (dat_size es)) 0\<rparr>],
                        mbuf := mbuf (hts_expand 1 es), buf_null := False,
                        buf := [d], mem := push_delta (dat_size es)\<rparr>
                else es\<lparr>mem := mem es + push_delta (dat_size es),
                        mbuf := mbuf (hts_expand (length (buf es) + 1) es), buf_null := False,
                        buf := buf es @ [d]\<rparr>) \<and>
         (unat (dat_size es) + 8 < 2 ^ 31 \<and> unat (mem es) + unat (dat_size es) + 8 < 2 ^ 64 \<longrightarrow>
            (max_mem es < mem es + push_delta (dat_size es)) =
            (unat (max_mem es) < unat (mem es) + (unat (dat_size es) + 8)))"
proof -
  have "(max_mem es < mem es + push_delta (dat_size es)) =
        (unat (max_mem es) < unat (mem es) + (unat (dat_size es) + 8))"
    if r: "unat (dat_size es) + 8 < 2 ^ 31" "unat (mem es) + unat (dat_size es) + 8 < 2 ^ 64"
  proof -
    have d: "unat (push_delta (dat_size es)) = unat (dat_size es) + 8"
      using unat_push_delta [OF r(1)] .
    then have "unat (mem es) + unat (push_delta (dat_size es)) < 2 ^ LENGTH(64)"
      using r(2) by simp
    then have "unat (mem es + push_delta (dat_size es)) =
               unat (mem es) + unat (push_delta (dat_size es))"
      by (rule unat_add_lem [THEN iffD1])
    then show ?thesis using d by (simp add: word_less_nat_alt)
  qed
  then show ?thesis using extsort_push_eq [OF assms] unfolding run_of_def by blast
qed

text \<open>
  After \<^verbatim>\<open>extsort_sort\<close> the array \<^verbatim>\<open>es->buf\<close> is freed and the capacity kept, so a push
  into a session that had buffered a record before stores through the null pointer.
\<close>

lemma push_after_sort:
  "extsort_sort (es_example\<lparr>mbuf := 1, buf_null := False\<rparr>) =
     Inr (es_example\<lparr>mbuf := 1, bhp := Some []\<rparr>) \<and>
   extsort_push (es_example\<lparr>mbuf := 1, bhp := Some []\<rparr>) [7] = Inl Undefined_behaviour"
  by (simp add: extsort_sort_def buf_flush_def extsort_push_def hts_expand_def es_example_def)

subsection \<open>Where assertions fail\<close>

text \<open>Only \<^verbatim>\<open>extsort_init\<close> asserts; no other operation ends in a failed assertion.\<close>

lemma buf_write_no_assert: "buf_write n f ds \<noteq> Inl Assertion_failed"
  by (induction ds arbitrary: f) (auto simp: sys_write_def)

lemma buf_flush_no_assert: "buf_flush es \<noteq> Inl Assertion_failed"
  using buf_write_no_assert
  by (auto simp: buf_flush_def sys_lseek_set_def split: option.splits sum.splits)

lemma blk_read_no_assert: "blk_read n b \<noteq> Inl Assertion_failed"
  by (auto simp: blk_read_def split: option.splits prod.splits)

lemma sort_loop_no_assert: "sort_loop es idx \<noteq> Inl Assertion_failed"
proof (induction idx arbitrary: es)
  case Nil
  then show ?case by simp
next
  case (Cons i idx)
  show ?case
    using Cons.IH blk_read_no_assert
    by (auto simp: sys_lseek_set_def split: option.splits sum.splits prod.splits)
qed

section \<open>The claims\<close>

text \<open>
  In the theorems about whole sessions, \<open>es\<close> is a session as \<^verbatim>\<open>extsort_init\<close> returns
  it after any sequence of \<^verbatim>\<open>extsort_set\<close> calls (\<open>extsort_open\<close>), \<open>c\<close> is its comparator,
  and the pushed records \<open>ds\<close> have \<^verbatim>\<open>dat_size\<close> bytes each. The record size is below
  \<open>2 ^ 32\<close> there: \<^verbatim>\<open>int ret = _blk_read(es, blk)\<close> keeps 32 bits of the number of bytes
  read, which must not become zero for a record that was read.
\<close>

text \<open>
  Claim C1. For every finite sequence of records pushed into a session with a total-order
  comparator, after \<^verbatim>\<open>extsort_sort\<close> the records that successive calls of
  \<^verbatim>\<open>extsort_shift\<close> return are non-decreasing under the comparator. The calls succeed,
  any number \<open>k\<close> of them returns a non-decreasing sequence, and from \<open>k = length ds\<close>
  on the sequence ends with the null result.
\<close>

theorem pull_sequence_sorted:
  assumes "cmp_total_order c"
    and "extsort_open parse_mem_string opts = Inr es" and "cmp es = Some c"
    and "unat (dat_size es) < 2 ^ 32"
    and "\<forall>d\<in>set ds. length d = unat (dat_size es)"
  shows "\<exists>out es'. extsort_run es ds k = Inr (out, es') \<and>
           sorted_wrt (\<lambda>a b. c a b \<le> 0) out \<and>
           (length ds \<le> k \<longrightarrow> extsort_shift es' = Inr (None, es'))"
proof -
  obtain out es' where r: "extsort_run es ds k = Inr (out, es')"
    and s: "sorted_wrt (cmp_le c) out" and e: "length ds \<le> k \<longrightarrow> bhp es' = Some []"
    using run_main [OF assms] by blast
  have "length ds \<le> k \<longrightarrow> extsort_shift es' = Inr (None, es')"
    using e by (simp add: shift_end)
  then show ?thesis using r s by (simp add: cmp_le_eq)
qed

theorem pull_sequence_sorted_witness:
  "cmp_total_order cmp_byte \<and>
   extsort_open (\<lambda>s. 20) [DAT_SIZE 1, MAX_MEM ''20'', FUNC_CMP (Some cmp_byte)] = Inr es_example \<and>
   (\<exists>out es'. extsort_run es_example [[5], [3], [4], [1], [2]] 6 = Inr (out, es') \<and>
      sorted_wrt (\<lambda>a b. cmp_byte a b \<le> 0) out \<and> extsort_shift es' = Inr (None, es'))"
proof -
  have "cmp es_example = Some cmp_byte" "unat (dat_size es_example) < 2 ^ 32"
    "\<forall>d\<in>set [[5], [3], [4], [1], [2 :: byte]]. length d = unat (dat_size es_example)"
    by (simp_all add: es_example_def)
  then show ?thesis
    using pull_sequence_sorted [OF cmp_total_order_cmp_byte open_example,
        of "[[5], [3], [4], [1], [2]]" 6]
      cmp_total_order_cmp_byte open_example
    by simp
qed

text \<open>
  Claim C2. For every finite sequence of records pushed into a session, the records that
  \<^verbatim>\<open>extsort_shift\<close> returns before the null result are a permutation of the pushed
  records: as many as were pushed, the same bytes, and the call after them returns null.
  \<open>k\<close> is any bound on the number of calls that is not below the number of records.
\<close>

theorem pull_sequence_permutation:
  assumes "cmp_total_order c"
    and "extsort_open parse_mem_string opts = Inr es" and "cmp es = Some c"
    and "unat (dat_size es) < 2 ^ 32"
    and "\<forall>d\<in>set ds. length d = unat (dat_size es)"
    and "length ds \<le> k"
  shows "\<exists>out es'. extsort_run es ds k = Inr (out, es') \<and>
           mset out = mset ds \<and> length out = length ds \<and>
           extsort_shift es' = Inr (None, es')"
proof -
  obtain out es' where r: "extsort_run es ds k = Inr (out, es')"
    and m: "merge_inv c (unat (dat_size es)) es'"
    and p: "mset ds = mset out + pending (unat (dat_size es)) es'"
    and e: "bhp es' = Some []"
    using run_main [OF assms(1-5), of k] assms(6) by auto
  have "pending (unat (dat_size es)) es' = {#}" using pending_empty [OF m e] .
  then have ms: "mset out = mset ds" using p by simp
  then have "length out = length ds" by (rule mset_eq_length)
  then show ?thesis using r ms e by (simp add: shift_end)
qed

theorem pull_sequence_permutation_witness:
  "map_sum id fst (extsort_run es_example [[5], [3], [4], [1], [2]] 5) =
     Inr [[1], [2], [3], [4], [5]] \<and>
   (\<exists>out es'. extsort_run es_example [[5], [3], [4], [1], [2]] 5 = Inr (out, es') \<and>
      mset out = mset [[5], [3], [4], [1], [2]] \<and> length out = 5 \<and>
      extsort_shift es' = Inr (None, es'))"
proof -
  have a: "cmp es_example = Some cmp_byte" "unat (dat_size es_example) < 2 ^ 32"
    "\<forall>d\<in>set [[5], [3], [4], [1], [2 :: byte]]. length d = unat (dat_size es_example)"
    by (simp_all add: es_example_def)
  have l: "length [[5], [3], [4], [1], [2 :: byte]] = 5" by simp
  then have k: "length [[5], [3], [4], [1], [2 :: byte]] \<le> 5" by simp
  have b: "map_sum id fst (extsort_run es_example [[5], [3], [4], [1], [2]] 5) =
     Inr [[1], [2], [3], [4], [5]]"
    by code_simp
  show ?thesis
    using pull_sequence_permutation [OF cmp_total_order_cmp_byte open_example a k, unfolded l] b
    by blast
qed

text \<open>
  Claim C3. Immediately after every call of \<^verbatim>\<open>extsort_push\<close> returns, the memory estimate
  of the buffer, the number of buffered records times \<^verbatim>\<open>dat_size + 8\<close> (the record and one
  pointer), does not exceed \<^verbatim>\<open>max_mem\<close>, except when the buffer was empty and the one
  record's estimate alone exceeds the budget. The code breaks this where
  \<^verbatim>\<open>sizeof(void *) + es->dat_size\<close> does not fit \<^verbatim>\<open>int delta\<close>: a session opened with records
  of \<open>2 ^ 32 - 8\<close> bytes and the default budget adds 0 to \<^verbatim>\<open>es->mem\<close> for each record, so
  that three pushes return with three records in the buffer, no block written and
  \<^verbatim>\<open>es->mem\<close> still 0, while the estimate of three records is \<open>3 * 2 ^ 32\<close>.
\<close>

theorem push_budget_int_delta:
  "extsort_open (\<lambda>s. 0) [DAT_SIZE 4294967288, FUNC_CMP (Some cmp_byte)] = Inr es_big \<and>
   push_delta (dat_size es_big) = 0 \<and>
   push_all es_big [rec_big 1, rec_big 2, rec_big 3] =
     Inr (es_big\<lparr>mbuf := 4, buf_null := False, buf := [rec_big 1, rec_big 2, rec_big 3]\<rparr>) \<and>
   mem (es_big\<lparr>mbuf := 4, buf_null := False, buf := [rec_big 1, rec_big 2, rec_big 3]\<rparr>) = 0 \<and>
   blk (es_big\<lparr>mbuf := 4, buf_null := False, buf := [rec_big 1, rec_big 2, rec_big 3]\<rparr>) = [] \<and>
   unat (max_mem es_big) < 3 * (unat (dat_size es_big) + 8)"
proof -
  have d: "push_delta 4294967288 = 0" by (simp add: push_delta_def)
  note k = kroundup_small
  have "extsort_open (\<lambda>s. 0) [DAT_SIZE 4294967288, FUNC_CMP (Some cmp_byte)] = Inr es_big"
    by (simp add: extsort_open_def extsort_set_def extsort_alloc_def extsort_init_def
        init_tmp_prefix_def es_big_def rec_big_def)
  moreover have "push_all es_big [rec_big 1, rec_big 2, rec_big 3] =
     Inr (es_big\<lparr>mbuf := 4, buf_null := False, buf := [rec_big 1, rec_big 2, rec_big 3]\<rparr>)"
    by (simp add: extsort_push_def hts_expand_def es_big_def d k)
  ultimately show ?thesis by (simp add: es_big_def d)
qed

text \<open>
  Claim C4. At every point of the retrieval phase at which the heap is not empty, the head
  of the block at the heap's minimum (entry 0) is a smallest record among all records not
  yet returned, across all open blocks. The state \<open>es'\<close> is the state after \<open>k\<close> calls
  of \<^verbatim>\<open>extsort_shift\<close>, or fewer if the null result came first; the records not yet
  returned are the pushed records without the returned ones, and they are the heads and
  unread records of the open blocks.
\<close>

theorem heap_minimum_is_global_minimum:
  assumes "cmp_total_order c"
    and "extsort_open parse_mem_string opts = Inr es" and "cmp es = Some c"
    and "unat (dat_size es) < 2 ^ 32"
    and "\<forall>d\<in>set ds. length d = unat (dat_size es)"
  shows "\<exists>out es' h. extsort_run es ds k = Inr (out, es') \<and> bhp es' = Some h \<and>
           mset ds = mset out +
             sum_list (map (\<lambda>b. mset (blk_pending (unat (dat_size es)) b)) (blk es')) \<and>
           (h \<noteq> [] \<longrightarrow> h ! 0 < length (blk es') \<and> fd (blk es' ! (h ! 0)) \<noteq> None \<and>
              (\<forall>b\<in>set (blk es'). \<forall>r\<in>set (blk_pending (unat (dat_size es)) b).
                 c (dat (blk es' ! (h ! 0))) r \<le> 0))"
proof -
  obtain out es' where r: "extsort_run es ds k = Inr (out, es')"
    and m: "merge_inv c (unat (dat_size es)) es'"
    and p: "mset ds = mset out + pending (unat (dat_size es)) es'"
    using run_main [OF assms, of k] by blast
  obtain h where h: "bhp es' = Some h" using merge_inv_bhp [OF m] by blast
  have "h ! 0 < length (blk es') \<and> fd (blk es' ! (h ! 0)) \<noteq> None \<and>
        (\<forall>b\<in>set (blk es'). \<forall>r\<in>set (blk_pending (unat (dat_size es)) b).
           c (dat (blk es' ! (h ! 0))) r \<le> 0)" if ne: "h \<noteq> []"
  proof -
    note x = heap_root_min [OF assms(1) m h ne]
    have "\<forall>b\<in>set (blk es'). \<forall>r\<in>set (blk_pending (unat (dat_size es)) b).
           c (dat (blk es' ! (h ! 0))) r \<le> 0"
    proof (intro ballI)
      fix b r assume "b \<in> set (blk es')" "r \<in> set (blk_pending (unat (dat_size es)) b)"
      then obtain j where "j < length (blk es')"
        "r \<in> set (blk_pending (unat (dat_size es)) (blk es' ! j))"
        by (auto simp: in_set_conv_nth)
      then show "c (dat (blk es' ! (h ! 0))) r \<le> 0" using x(3) by (simp add: cmp_le_def)
    qed
    then show ?thesis using x(1,2) by simp
  qed
  then show ?thesis using r h p by (auto simp: pending_def)
qed

theorem heap_minimum_is_global_minimum_witness:
  "map_sum id (\<lambda>(out, es'). (out, bhp es', map (blk_pending 1) (blk es')))
     (extsort_run es_example [[5], [3], [4], [1], [2]] 2) =
     Inr ([[1], [2]], Some [0, 1], [[[3], [5]], [[4]], []]) \<and>
   (\<exists>out es' h. extsort_run es_example [[5], [3], [4], [1], [2]] 2 = Inr (out, es') \<and>
      bhp es' = Some h \<and>
      mset [[5], [3], [4], [1], [2]] =
        mset out + sum_list (map (\<lambda>b. mset (blk_pending 1 b)) (blk es')) \<and>
      (h \<noteq> [] \<longrightarrow> h ! 0 < length (blk es') \<and> fd (blk es' ! (h ! 0)) \<noteq> None \<and>
         (\<forall>b\<in>set (blk es'). \<forall>r\<in>set (blk_pending 1 b).
            cmp_byte (dat (blk es' ! (h ! 0))) r \<le> 0)))"
proof -
  have a: "cmp es_example = Some cmp_byte" "unat (dat_size es_example) < 2 ^ 32"
    "\<forall>d\<in>set [[5], [3], [4], [1], [2 :: byte]]. length d = unat (dat_size es_example)"
    by (simp_all add: es_example_def)
  have n: "unat (dat_size es_example) = 1" by (simp add: es_example_def)
  have b: "map_sum id (\<lambda>(out, es'). (out, bhp es', map (blk_pending 1) (blk es')))
     (extsort_run es_example [[5], [3], [4], [1], [2]] 2) =
     Inr ([[1], [2]], Some [0, 1], [[[3], [5]], [[4]], []])"
    by code_simp
  show ?thesis
    using heap_minimum_is_global_minimum [OF cmp_total_order_cmp_byte open_example a, of 2] b
    unfolding n by simp
qed

text \<open>
  Claim C5. For every block created by a flush, the records stored in it (the buffered
  records sorted by the comparator and written one after the other) are non-decreasing
  under the comparator; they are the buffered records, and the file is left at its start.
\<close>

theorem flush_run_sorted:
  assumes "cmp_total_order c" and "cmp es = Some c" and "tmp_prefix es = Some p"
    and "buf es \<noteq> []" and "0 < unat (dat_size es)"
    and "\<forall>r\<in>set (buf es). length r = unat (dat_size es)"
  shows "\<exists>f. buf_flush es =
              Inr (es\<lparr>blk := blk es @ [\<lparr>fd = Some f, fname = p,
                                          dat = replicate (unat (dat_size es)) 0\<rparr>],
                      buf := [], mem := 0\<rparr>) \<and>
           offset f = 0 \<and>
           mset (chunks (unat (dat_size es)) (content f)) = mset (buf es) \<and>
           sorted_wrt (\<lambda>a b. c a b \<le> 0) (chunks (unat (dat_size es)) (content f))"
proof -
  define n where "n = unat (dat_size es)"
  have "\<forall>r\<in>set (buf es). unat (dat_size es) \<le> length r" using assms(6) by simp
  then have "buf_flush es = Inr (es\<lparr>blk := blk es @ [run_of c n p (buf es)], buf := [], mem := 0\<rparr>)"
    using buf_flush_eq [OF assms(2,3,4)] by (simp add: n_def)
  moreover have "chunks n (concat (map (take n) (qsort c (buf es)))) = qsort c (buf es)"
    using chunks_run assms(5,6) by (simp add: n_def)
  ultimately show ?thesis
    using sorted_qsort [OF assms(1), of "buf es"]
    by (intro exI [of _ "\<lparr>content = concat (map (take n) (qsort c (buf es))), offset = 0\<rparr>"])
       (simp add: run_of_def n_def [symmetric] mset_qsort cmp_le_eq)
qed

theorem flush_run_sorted_witness:
  "buf_flush (es_example\<lparr>buf := [[5], [3], [4]], mem := 27\<rparr>) =
     Inr (es_example\<lparr>blk := [\<lparr>fd = Some \<lparr>content = [3, 4, 5], offset = 0\<rparr>,
                               fname = ''/tmp/bcftools-sort.XXXXXX'', dat = [0]\<rparr>],
                      buf := [], mem := 0\<rparr>) \<and>
   (\<exists>f. buf_flush (es_example\<lparr>buf := [[5], [3], [4]], mem := 27\<rparr>) =
           Inr (es_example\<lparr>blk := [\<lparr>fd = Some f, fname = ''/tmp/bcftools-sort.XXXXXX'',
                                     dat = [0]\<rparr>],
                            buf := [], mem := 0\<rparr>) \<and>
         offset f = 0 \<and> mset (chunks 1 (content f)) = mset [[5], [3], [4]] \<and>
         sorted_wrt (\<lambda>a b. cmp_byte a b \<le> 0) (chunks 1 (content f)))"
proof -
  define es where "es = es_example\<lparr>buf := [[5], [3], [4]], mem := 27\<rparr>"
  have a: "cmp es = Some cmp_byte" "tmp_prefix es = Some ''/tmp/bcftools-sort.XXXXXX''"
    "buf es \<noteq> []" "0 < unat (dat_size es)" "\<forall>r\<in>set (buf es). length r = unat (dat_size es)"
    by (simp_all add: es_def es_example_def)
  have b: "buf_flush (es_example\<lparr>buf := [[5], [3], [4]], mem := 27\<rparr>) =
     Inr (es_example\<lparr>blk := [\<lparr>fd = Some \<lparr>content = [3, 4, 5], offset = 0\<rparr>,
                               fname = ''/tmp/bcftools-sort.XXXXXX'', dat = [0]\<rparr>],
                      buf := [], mem := 0\<rparr>)"
    by (simp add: buf_flush_def es_example_def sys_mkstemp_def sys_write_def sys_lseek_set_def
        cmp_byte_def)
  show ?thesis
    using flush_run_sorted [OF cmp_total_order_cmp_byte a] b
    by (simp add: es_def es_example_def)
qed

text \<open>
  Claim C6. For every call of \<^verbatim>\<open>extsort_push\<close>: if the buffer is not empty and adding the
  record's memory estimate would exceed \<^verbatim>\<open>max_mem\<close>, the buffer is flushed into one new
  block before the record is appended; otherwise the record is appended and no block is
  created; in both cases the call returns with the record in the buffer. The code breaks
  the first part where \<^verbatim>\<open>sizeof(void *) + es->dat_size\<close> does not fit \<^verbatim>\<open>int delta\<close>: in a
  session with records of \<open>2 ^ 32 - 8\<close> bytes and the default budget, the second push
  finds one record in the buffer, the estimate of two records is \<open>2 * 2 ^ 32\<close> and
  exceeds the budget, and the call appends the record without a flush: no block is
  created.
\<close>

theorem push_no_flush_int_delta:
  "extsort_push es_big (rec_big 1) =
     Inr (es_big\<lparr>mbuf := 1, buf_null := False, buf := [rec_big 1]\<rparr>) \<and>
   buf (es_big\<lparr>mbuf := 1, buf_null := False, buf := [rec_big 1]\<rparr>) \<noteq> [] \<and>
   unat (max_mem es_big) < 2 * (unat (dat_size es_big) + 8) \<and>
   extsort_push (es_big\<lparr>mbuf := 1, buf_null := False, buf := [rec_big 1]\<rparr>) (rec_big 2) =
     Inr (es_big\<lparr>mbuf := 2, buf_null := False, buf := [rec_big 1, rec_big 2]\<rparr>) \<and>
   blk (es_big\<lparr>mbuf := 2, buf_null := False, buf := [rec_big 1, rec_big 2]\<rparr>) = []"
proof -
  have d: "push_delta 4294967288 = 0" by (simp add: push_delta_def)
  note k = kroundup_small
  show ?thesis by (simp add: extsort_push_def hts_expand_def es_big_def d k)
qed

text \<open>A block whose file is closed returns 0 and is not read.\<close>

lemma blk_read_closed: "fd b = None \<Longrightarrow> blk_read n b = Inr (0, b)"
  by (simp add: blk_read_def)

text \<open>
  Claim C7. Every read of a block with an open file and a record size that is not zero has
  one of three outcomes: a full record of \<^verbatim>\<open>dat_size\<close> bytes is read into the head and
  the number \<^verbatim>\<open>dat_size\<close>, which is not zero, is returned; no byte is left, the file is
  closed, the block is marked with \<^verbatim>\<open>fd = -1\<close> and 0 is returned; or bytes are left but
  fewer than \<^verbatim>\<open>dat_size\<close>, and the read is a fatal error.
\<close>

theorem blk_read_outcomes:
  assumes "fd b = Some f" and "0 < unat n"
  shows "(unat n \<le> length (drop (offset f) (content f)) \<longrightarrow>
            blk_read n b =
              Inr (n, b\<lparr>fd := Some (f\<lparr>offset := offset f + unat n\<rparr>),
                        dat := take (unat n) (drop (offset f) (content f)) @
                               drop (unat n) (dat b)\<rparr>)) \<and>
         (drop (offset f) (content f) = [] \<longrightarrow> blk_read n b = Inr (0, b\<lparr>fd := None\<rparr>)) \<and>
         (drop (offset f) (content f) \<noteq> [] \<and> length (drop (offset f) (content f)) < unat n \<longrightarrow>
            blk_read n b = Inl Fatal)"
  using assms by (auto simp: blk_read_def sys_read_def Let_def min_def)

theorem blk_read_outcomes_witness:
  "blk_read 2 \<lparr>fd = Some \<lparr>content = [1, 2, 3, 4, 5], offset = 2\<rparr>, fname = ''t'', dat = [0, 0]\<rparr> =
     Inr (2, \<lparr>fd = Some \<lparr>content = [1, 2, 3, 4, 5], offset = 4\<rparr>, fname = ''t'', dat = [3, 4]\<rparr>) \<and>
   blk_read 2 \<lparr>fd = Some \<lparr>content = [1, 2, 3, 4], offset = 4\<rparr>, fname = ''t'', dat = [3, 4]\<rparr> =
     Inr (0, \<lparr>fd = None, fname = ''t'', dat = [3, 4]\<rparr>) \<and>
   blk_read 2 \<lparr>fd = Some \<lparr>content = [1, 2, 3, 4, 5], offset = 4\<rparr>, fname = ''t'', dat = [3, 4]\<rparr> =
     Inl Fatal"
  using
    blk_read_outcomes [of "\<lparr>fd = Some \<lparr>content = [1, 2, 3, 4, 5], offset = 2\<rparr>, fname = ''t'', dat = [0, 0]\<rparr>"
      "\<lparr>content = [1, 2, 3, 4, 5], offset = 2\<rparr>" 2]
    blk_read_outcomes [of "\<lparr>fd = Some \<lparr>content = [1, 2, 3, 4], offset = 4\<rparr>, fname = ''t'', dat = [3, 4]\<rparr>"
      "\<lparr>content = [1, 2, 3, 4], offset = 4\<rparr>" 2]
    blk_read_outcomes [of "\<lparr>fd = Some \<lparr>content = [1, 2, 3, 4, 5], offset = 4\<rparr>, fname = ''t'', dat = [3, 4]\<rparr>"
      "\<lparr>content = [1, 2, 3, 4, 5], offset = 4\<rparr>" 2]
  by simp

text \<open>
  Claim C8, as the code has it. The claim says that \<^verbatim>\<open>extsort_push\<close>, \<^verbatim>\<open>extsort_sort\<close>
  and \<^verbatim>\<open>extsort_shift\<close> fail fatally on a session whose record size and comparator have
  not been configured. On the session fresh from \<^verbatim>\<open>extsort_alloc\<close>, which has neither,
  \<^verbatim>\<open>extsort_push\<close> appends the record and returns, \<^verbatim>\<open>extsort_sort\<close> with nothing pushed
  returns, and \<^verbatim>\<open>extsort_shift\<close> then returns null.
\<close>

theorem push_unconfigured_counterexample:
  "cmp extsort_alloc = None \<and> dat_size extsort_alloc = 0 \<and>
   extsort_push extsort_alloc [1] =
     Inr (extsort_alloc\<lparr>mem := 8, mbuf := 1, buf_null := False, buf := [[1]]\<rparr>) \<and>
   extsort_sort extsort_alloc = Inr (extsort_alloc\<lparr>buf := [], bhp := Some []\<rparr>) \<and>
   extsort_shift (extsort_alloc\<lparr>buf := [], bhp := Some []\<rparr>) =
     Inr (None, extsort_alloc\<lparr>buf := [], bhp := Some []\<rparr>)"
  by (simp add: extsort_push_def hts_expand_def extsort_sort_def buf_flush_def extsort_shift_def
      extsort_alloc_def push_delta_def kroundup_small)

text \<open>
  Claim C8, amended. The configuration is checked by \<^verbatim>\<open>extsort_init\<close>, the call that
  precedes every push: on a session whose comparator or record size has not been
  configured it fails fatally, by an assertion. \<^verbatim>\<open>extsort_push\<close>, \<^verbatim>\<open>extsort_sort\<close> and
  \<^verbatim>\<open>extsort_shift\<close> check no precondition: whatever the session, none of them ends in a
  failed assertion.
\<close>

theorem init_checks_configuration:
  "(cmp es = None \<or> dat_size es = 0 \<longrightarrow> extsort_init es = Inl Assertion_failed) \<and>
   extsort_push es d \<noteq> Inl Assertion_failed \<and>
   extsort_sort es \<noteq> Inl Assertion_failed \<and>
   extsort_shift es \<noteq> Inl Assertion_failed"
proof -
  have 1: "cmp es = None \<or> dat_size es = 0 \<longrightarrow> extsort_init es = Inl Assertion_failed"
    by (auto simp: extsort_init_def)
  have 3: "extsort_push es d \<noteq> Inl Assertion_failed"
    using buf_flush_no_assert [of es]
    by (auto simp: extsort_push_def Let_def split: sum.splits if_splits)
  have 4: "extsort_sort es \<noteq> Inl Assertion_failed"
    using buf_flush_no_assert [of es] sort_loop_no_assert
    by (auto simp: extsort_sort_def split: sum.splits)
  have 5: "extsort_shift es \<noteq> Inl Assertion_failed"
    using blk_read_no_assert
    by (auto simp: extsort_shift_def Let_def split: option.splits sum.splits if_splits prod.splits)
  show ?thesis using 1 3 4 5 by blast
qed

theorem init_checks_configuration_witness:
  "extsort_init extsort_alloc = Inl Assertion_failed \<and>
   extsort_init (extsort_alloc\<lparr>cmp := Some cmp_byte\<rparr>) = Inl Assertion_failed \<and>
   extsort_init (extsort_alloc\<lparr>dat_size := 4\<rparr>) = Inl Assertion_failed \<and>
   extsort_push extsort_alloc [7] \<noteq> Inl Assertion_failed \<and>
   extsort_sort extsort_alloc \<noteq> Inl Assertion_failed \<and>
   extsort_shift extsort_alloc \<noteq> Inl Assertion_failed"
  using init_checks_configuration [of extsort_alloc "[7]"]
    init_checks_configuration [of "extsort_alloc\<lparr>cmp := Some cmp_byte\<rparr>" "[7]"]
    init_checks_configuration [of "extsort_alloc\<lparr>dat_size := 4\<rparr>" "[7]"]
  by (simp add: extsort_alloc_def)

text \<open>
  Claim C9. For a session into which no record is pushed, \<^verbatim>\<open>extsort_sort\<close> succeeds and
  creates no block, and the first \<^verbatim>\<open>extsort_shift\<close> returns the null result at once.
\<close>

theorem no_records_end_of_data:
  assumes "extsort_open parse_mem_string opts = Inr es"
  shows "push_all es [] = Inr es \<and>
         extsort_sort es = Inr (es\<lparr>buf := [], bhp := Some []\<rparr>) \<and>
         blk (es\<lparr>buf := [], bhp := Some []\<rparr>) = [] \<and>
         extsort_shift (es\<lparr>buf := [], bhp := Some []\<rparr>) =
           Inr (None, es\<lparr>buf := [], bhp := Some []\<rparr>)"
proof -
  note p = extsort_open_props [OF assms]
  have "es\<lparr>buf_null := True\<rparr> = es" using p(10) by (cases es) simp
  then have "es\<lparr>buf_null := True, buf := [], bhp := Some []\<rparr> = es\<lparr>buf := [], bhp := Some []\<rparr>"
    by simp
  then show ?thesis using p by (simp add: extsort_sort_def buf_flush_def extsort_shift_def)
qed

theorem no_records_end_of_data_witness:
  "extsort_sort es_example = Inr (es_example\<lparr>buf := [], bhp := Some []\<rparr>) \<and>
   blk (es_example\<lparr>buf := [], bhp := Some []\<rparr>) = [] \<and>
   extsort_shift (es_example\<lparr>buf := [], bhp := Some []\<rparr>) =
     Inr (None, es_example\<lparr>buf := [], bhp := Some []\<rparr>) \<and>
   extsort_run es_example [] 1 = Inr ([], es_example\<lparr>buf := [], bhp := Some []\<rparr>)"
  using no_records_end_of_data [OF open_example]
  by (simp add: extsort_run_def)

text \<open>
  Claim C10. Once \<^verbatim>\<open>extsort_shift\<close> has returned the null result, every later call on the
  session returns the null result too and leaves the session as it is: the call that
  returned null did not change the session, and any number \<open>k\<close> of further calls returns
  \<open>k\<close> null results and the same session.
\<close>

theorem shift_after_end_of_data:
  assumes "extsort_shift es = Inr (None, es')"
  shows "es' = es \<and> shift_n k es' = Inr (replicate k None, es')"
proof -
  have e: "es' = es"
    using assms
    by (auto simp: extsort_shift_def Let_def split: option.splits if_splits sum.splits prod.splits)
  have "shift_n k es = Inr (replicate k None, es)"
    using assms e by (induction k) simp_all
  then show ?thesis using e by simp
qed

theorem shift_after_end_of_data_witness:
  "extsort_shift (es_example\<lparr>bhp := Some []\<rparr>) = Inr (None, es_example\<lparr>bhp := Some []\<rparr>) \<and>
   shift_n 3 (es_example\<lparr>bhp := Some []\<rparr>) = Inr ([None, None, None], es_example\<lparr>bhp := Some []\<rparr>)"
proof -
  have a: "extsort_shift (es_example\<lparr>bhp := Some []\<rparr>) = Inr (None, es_example\<lparr>bhp := Some []\<rparr>)"
    by (simp add: extsort_shift_def)
  show ?thesis using shift_after_end_of_data [OF a, of 3] a by (simp add: numeral_3_eq_3)
qed

end
